theory Spec2Isabelle
  imports Complex_Main "HOL-Library.Multiset"
begin

section \<open>The renderer of donut.c\<close>

text \<open>
  The embedding follows \<^verbatim>\<open>src/donut.c\<close>. A value of C type \<^verbatim>\<open>float\<close> that is
  stored and compared (a depth in \<^verbatim>\<open>z\<close>, the sample depth \<^verbatim>\<open>D\<close>) is a real number. In the
  renderer the arithmetic that produces such values (\<^verbatim>\<open>sin\<close>, \<^verbatim>\<open>cos\<close>, products,
  sums, the quotient, the two loop counters) is the exact arithmetic of the reals. In the
  frame driver the two places where a rounded value is kept or passed on, the update of
  the rotation angles and the quotient given to \<^verbatim>\<open>usleep\<close>, round as the code does.
  C \<^verbatim>\<open>int\<close> is \<open>int\<close>: every integer the renderer uses after the coordinate guard is
  far from the 32-bit range.
\<close>

subsection \<open>The two buffers\<close>

text \<open>\<^verbatim>\<open>float z[1760]; char b[1760];\<close>\<close>

record frame =
  zbuf :: "real list"
  bbuf :: "char list"

text \<open>\<^verbatim>\<open>memset(b, 32, 1760); memset(z, 0, sizeof(z));\<close>\<close>

definition clear_frame :: frame where
  "clear_frame = \<lparr>zbuf = replicate 1760 0, bbuf = replicate 1760 (CHR 0x20)\<rparr>"

text \<open>
  What C leaves undefined is a fault of the model: an index outside \<^verbatim>\<open>z\<close> and
  \<^verbatim>\<open>b\<close>, and an index outside the array of the string literal.
\<close>

datatype fault = Buffer_Out_Of_Bounds | Ramp_Out_Of_Bounds

subsection \<open>One sample\<close>

text \<open>The literal \<^verbatim>\<open>".,-~:;=!*#$@"\<close>: twelve glyphs, then the terminating zero byte.\<close>

definition ramp :: string where
  "ramp = ''.,-~:;=!*#$@''"

text \<open>\<^verbatim>\<open>N > 0 ? N : 0\<close>\<close>

definition ramp_index :: "int \<Rightarrow> nat" where
  "ramp_index N = nat (if N > 0 then N else 0)"

text \<open>
  \<^verbatim>\<open>".,-~:;=!*#$@"[N > 0 ? N : 0]\<close>: index 12 reads the terminating zero byte of the
  literal, anything beyond is outside the literal's array.
\<close>

definition glyph :: "int \<Rightarrow> fault + char" where
  "glyph N =
     (let k = ramp_index N
      in if k < length ramp then Inr (ramp ! k)
         else if k = length ramp then Inr (CHR 0x00)
         else Inl Ramp_Out_Of_Bounds)"

text \<open>The coordinate part of the guard: \<^verbatim>\<open>22 > y && y > 0 && x > 0 && 80 > x\<close>.\<close>

definition in_grid :: "int \<Rightarrow> int \<Rightarrow> bool" where
  "in_grid x y = (22 > y \<and> y > 0 \<and> x > 0 \<and> 80 > x)"

text \<open>\<^verbatim>\<open>o = x + 80 * y\<close> (the name \<open>o\<close> is taken in HOL).\<close>

definition offset :: "int \<Rightarrow> int \<Rightarrow> int" where
  "offset x y = x + 80 * y"

text \<open>
  The depth test and the two stores. \<^verbatim>\<open>&&\<close> evaluates left to right and stops at the
  first false operand, so \<^verbatim>\<open>z[o]\<close> is read only when the coordinate guard holds; the
  read is a fault when \<^verbatim>\<open>o\<close> is not an index of the 1760 cells.
\<close>

definition plot :: "int \<Rightarrow> int \<Rightarrow> real \<Rightarrow> int \<Rightarrow> frame \<Rightarrow> fault + frame" where
  "plot x y D N fr =
     (if in_grid x y then
        (if offset x y < 0 \<or> 1760 \<le> offset x y then Inl Buffer_Out_Of_Bounds
         else if D > zbuf fr ! nat (offset x y) then
           (case glyph N of
              Inl e \<Rightarrow> Inl e
            | Inr ch \<Rightarrow>
                Inr (fr\<lparr>zbuf := (zbuf fr)[nat (offset x y) := D],
                        bbuf := (bbuf fr)[nat (offset x y) := ch]\<rparr>))
         else Inr fr)
      else Inr fr)"

text \<open>Conversion of a floating value to \<^verbatim>\<open>int\<close>: the fraction is discarded.\<close>

definition c_int :: "real \<Rightarrow> int" where
  "c_int r = (if r < 0 then \<lceil>r\<rceil> else \<lfloor>r\<rfloor>)"

text \<open>
  The body of the inner loop up to the guard, over the eight trigonometric values the
  code names \<^verbatim>\<open>c d e f g l m n\<close>; the result is \<^verbatim>\<open>(x, y, D, N)\<close>.
\<close>

definition sample_of ::
  "real \<Rightarrow> real \<Rightarrow> real \<Rightarrow> real \<Rightarrow> real \<Rightarrow> real \<Rightarrow> real \<Rightarrow> real \<Rightarrow> int \<times> int \<times> real \<times> int" where
  "sample_of c d e f g l m n =
     (let h = d + 2;
          D = 1 / (c * h * e + f * g + 5);
          t = c * h * g - f * e;
          x = c_int (40 + 30 * D * (l * h * m - t * n));
          y = c_int (12 + 15 * D * (l * h * n + t * m));
          N = c_int (8 * ((f * e - c * d * g) * m - c * d * e - f * g - l * d * n))
      in (x, y, D, N))"

text \<open>
  \<^verbatim>\<open>c = sin(i), d = cos(j), e = sin(A), f = sin(j), g = cos(A), l = cos(i), m = cos(B),
  n = sin(B)\<close>
\<close>

definition sample_at :: "real \<Rightarrow> real \<Rightarrow> real \<Rightarrow> real \<Rightarrow> int \<times> int \<times> real \<times> int" where
  "sample_at A B i j =
     sample_of (sin i) (cos j) (sin A) (sin j) (cos A) (cos i) (cos B) (sin B)"

subsection \<open>The two loops\<close>

text \<open>Running a list of samples, in order, stopping at the first fault.\<close>

fun plot_all :: "(int \<times> int \<times> real \<times> int) list \<Rightarrow> frame \<Rightarrow> fault + frame" where
  "plot_all [] fr = Inr fr"
| "plot_all ((x, y, D, N) # ss) fr =
     (case plot x y D N fr of Inl e \<Rightarrow> Inl e | Inr fr' \<Rightarrow> plot_all ss fr')"

text \<open>\<^verbatim>\<open>for (i = 0; 6.28 > i; i += 0.02)\<close>, from the current \<^verbatim>\<open>i\<close> on.\<close>

function inner_loop :: "real \<Rightarrow> real \<Rightarrow> real \<Rightarrow> real \<Rightarrow> frame \<Rightarrow> fault + frame" where
  "inner_loop A B j i fr =
     (if 6.28 > i then
        (case sample_at A B i j of
           (x, y, D, N) \<Rightarrow>
             (case plot x y D N fr of
                Inl e \<Rightarrow> Inl e
              | Inr fr' \<Rightarrow> inner_loop A B j (i + 0.02) fr'))
      else Inr fr)"
  by pat_completeness auto
termination
  by (relation "measure (\<lambda>(A, B, j, i, fr). nat \<lceil>(6.28 - i) * 100\<rceil>)") (auto, linarith)

declare inner_loop.simps [simp del]

text \<open>\<^verbatim>\<open>for (j = 0; 6.28 > j; j += 0.07)\<close>, from the current \<^verbatim>\<open>j\<close> on.\<close>

function outer_loop :: "real \<Rightarrow> real \<Rightarrow> real \<Rightarrow> frame \<Rightarrow> fault + frame" where
  "outer_loop A B j fr =
     (if 6.28 > j then
        (case inner_loop A B j 0 fr of
           Inl e \<Rightarrow> Inl e
         | Inr fr' \<Rightarrow> outer_loop A B (j + 0.07) fr')
      else Inr fr)"
  by pat_completeness auto
termination
  by (relation "measure (\<lambda>(A, B, j, fr). nat \<lceil>(6.28 - j) * 100\<rceil>)") (auto, linarith)

declare outer_loop.simps [simp del]

text \<open>One frame: both buffers cleared, then every sample plotted.\<close>

definition render :: "real \<Rightarrow> real \<Rightarrow> fault + frame" where
  "render A B = outer_loop A B 0 clear_frame"

text \<open>
  The samples of a frame in the order the two loops evaluate them, so that the frame is
  \<open>plot_all\<close> of a list (shown below) and a change of the evaluation order is a permutation
  of that list.
\<close>

type_synonym sample = "int \<times> int \<times> real \<times> int"

function inner_samples :: "real \<Rightarrow> real \<Rightarrow> real \<Rightarrow> real \<Rightarrow> sample list" where
  "inner_samples A B j i =
     (if 6.28 > i then sample_at A B i j # inner_samples A B j (i + 0.02) else [])"
  by pat_completeness auto
termination
  by (relation "measure (\<lambda>(A, B, j, i). nat \<lceil>(6.28 - i) * 100\<rceil>)") (auto, linarith)

declare inner_samples.simps [simp del]

function outer_samples :: "real \<Rightarrow> real \<Rightarrow> real \<Rightarrow> sample list" where
  "outer_samples A B j =
     (if 6.28 > j then inner_samples A B j 0 @ outer_samples A B (j + 0.07) else [])"
  by pat_completeness auto
termination
  by (relation "measure (\<lambda>(A, B, j). nat \<lceil>(6.28 - j) * 100\<rceil>)") (auto, linarith)

declare outer_samples.simps [simp del]

definition frame_samples :: "real \<Rightarrow> real \<Rightarrow> sample list" where
  "frame_samples A B = outer_samples A B 0"

text \<open>The sample projects to cell \<open>k\<close>: it passes the coordinate guard and \<^verbatim>\<open>o\<close> is \<open>k\<close>.\<close>

definition hits :: "nat \<Rightarrow> sample \<Rightarrow> bool" where
  "hits k s = (case s of (x, y, D, N) \<Rightarrow> in_grid x y \<and> nat (offset x y) = k)"

definition depth_of :: "sample \<Rightarrow> real" where
  "depth_of s = (case s of (x, y, D, N) \<Rightarrow> D)"

definition glyph_of :: "sample \<Rightarrow> fault + char" where
  "glyph_of s = (case s of (x, y, D, N) \<Rightarrow> glyph N)"

text \<open>
  In every cell, the samples of the list that have the cell's maximal depth, when that is
  positive, carry the same glyph.
\<close>

definition ties_agree :: "sample list \<Rightarrow> bool" where
  "ties_agree ss =
     (\<forall>k. \<forall>s\<in>set ss. \<forall>s'\<in>set ss.
        hits k s \<and> hits k s' \<and> 0 < depth_of s \<and> depth_of s = depth_of s' \<and>
        (\<forall>p\<in>set ss. hits k p \<longrightarrow> depth_of p \<le> depth_of s) \<longrightarrow>
        glyph_of s = glyph_of s')"

text \<open>
  What every frame of the renderer satisfies: both buffers have 1760 cells, depths lie in
  \<open>[0, 1]\<close>, a cell has a positive depth exactly when it is not blank, and a cell that is not
  blank holds a glyph of the ramp.
\<close>

definition frame_ok :: "frame \<Rightarrow> bool" where
  "frame_ok fr =
     (length (zbuf fr) = 1760 \<and> length (bbuf fr) = 1760 \<and>
      (\<forall>k<1760. 0 \<le> zbuf fr ! k \<and> zbuf fr ! k \<le> 1 \<and>
         (0 < zbuf fr ! k \<longleftrightarrow> bbuf fr ! k \<noteq> CHR 0x20) \<and>
         (bbuf fr ! k = CHR 0x20 \<or> bbuf fr ! k \<in> set ramp)))"

section \<open>The frame driver\<close>

subsection \<open>Rounding to float and double\<close>

text \<open>\<open>2\<close> to an integer power.\<close>

definition pow2 :: "int \<Rightarrow> real" where
  "pow2 e = (if 0 \<le> e then 2 ^ nat e else 1 / 2 ^ nat (- e))"

text \<open>The nearest integer, the even one of the two when they are equally near.\<close>

definition round_even :: "real \<Rightarrow> int" where
  "round_even x =
     (if x - of_int \<lfloor>x\<rfloor> < 1 / 2 then \<lfloor>x\<rfloor>
      else if 1 / 2 < x - of_int \<lfloor>x\<rfloor> then \<lfloor>x\<rfloor> + 1
      else if even \<lfloor>x\<rfloor> then \<lfloor>x\<rfloor> else \<lfloor>x\<rfloor> + 1)"

text \<open>
  The nearest number with \<open>p\<close> significant bits, for a binary format whose least normal
  exponent is \<open>emin\<close>: the numbers of the format around \<open>x\<close> are the multiples of the unit
  in the last place of the binade of \<open>x\<close>. (The result is a real; a result beyond the largest
  number of the format stands for an infinity.)
\<close>

definition fround :: "nat \<Rightarrow> int \<Rightarrow> real \<Rightarrow> real" where
  "fround p emin x =
     (if x = 0 then 0
      else
        (let e = max \<lfloor>log 2 \<bar>x\<bar>\<rfloor> emin;
             ulp = pow2 (e - int p + 1)
         in of_int (round_even (x / ulp)) * ulp))"

text \<open>Conversion to \<^verbatim>\<open>float\<close> (binary32) and to \<^verbatim>\<open>double\<close> (binary64).\<close>

definition to_float :: "real \<Rightarrow> real" where
  "to_float x = fround 24 (- 126) x"

definition to_double :: "real \<Rightarrow> real" where
  "to_double x = fround 53 (- 1022) x"

text \<open>The largest \<^verbatim>\<open>float\<close>.\<close>

definition FLT_MAX :: real where
  "FLT_MAX = (2 ^ 24 - 1) * 2 ^ 104"

subsection \<open>The palette\<close>

text \<open>
  \<^verbatim>\<open>const char *colorPalette[3]\<close> is a list of three strings. \<^verbatim>\<open>setColorPalette\<close>
  fills it and may write one warning to \<^verbatim>\<open>stderr\<close>; the model returns the palette and the
  text written. \<^verbatim>\<open>strcmp(a, b) == 0\<close> is equality of the two strings.
\<close>

definition setColorPalette :: "string \<Rightarrow> string list \<times> string" where
  "setColorPalette colorName =
     (if colorName = ''rot'' \<or> colorName = ''red'' then
        ([CHR 0x1B # ''[38;2;100;0;0m'', CHR 0x1B # ''[38;2;180;0;0m'',
          CHR 0x1B # ''[38;2;255;100;100m''], [])
      else if colorName = ''blau'' \<or> colorName = ''blue'' then
        ([CHR 0x1B # ''[38;2;0;0;100m'', CHR 0x1B # ''[38;2;0;0;180m'',
          CHR 0x1B # ''[38;2;100;100;255m''], [])
      else if colorName = ''cyan'' then
        ([CHR 0x1B # ''[38;2;0;100;100m'', CHR 0x1B # ''[38;2;0;180;180m'',
          CHR 0x1B # ''[38;2;100;255;255m''], [])
      else if colorName = ''magenta'' then
        ([CHR 0x1B # ''[38;2;100;0;100m'', CHR 0x1B # ''[38;2;180;0;180m'',
          CHR 0x1B # ''[38;2;255;100;255m''], [])
      else if colorName = ''gelb'' \<or> colorName = ''yellow'' then
        ([CHR 0x1B # ''[38;2;100;100;0m'', CHR 0x1B # ''[38;2;180;180;0m'',
          CHR 0x1B # ''[38;2;255;255;100m''], [])
      else if colorName = ''weiss'' \<or> colorName = ''white'' then
        ([CHR 0x1B # ''[38;2;100;100;100m'', CHR 0x1B # ''[38;2;180;180;180m'',
          CHR 0x1B # ''[38;2;255;255;255m''], [])
      else
        ([CHR 0x1B # ''[38;2;0;100;0m'', CHR 0x1B # ''[38;2;0;180;0m'',
          CHR 0x1B # ''[38;2;100;255;100m''],
         if colorName \<noteq> ''gruen'' \<and> colorName \<noteq> ''green'' then
           ''Warning: Unknown color '' @ [CHR 0x27] @ colorName @ [CHR 0x27] @
           ''. Using default 'green'.'' @ [CHR 0x0A] @
           ''Available: green, red, blue, cyan, magenta, yellow, white'' @ [CHR 0x0A]
         else []))"

text \<open>
  For stating what the palette holds: the escape sequence that selects the foreground
  colour with the channels \<open>r\<close>, \<open>g\<close>, \<open>b\<close> written in decimal, the names the function
  compares its argument with, and a palette of three such sequences in which no channel
  decreases and the sum of the channels grows from each entry to the next.
\<close>

fun decimal :: "nat \<Rightarrow> string" where
  "decimal n =
     (if n < 10 then [''0123456789'' ! n]
      else decimal (n div 10) @ [''0123456789'' ! (n mod 10)])"

declare decimal.simps [simp del]

text \<open>\<^verbatim>\<open>ESC [ 38 ; 2 ; r ; g ; b m\<close>\<close>

definition fg :: "nat \<Rightarrow> nat \<Rightarrow> nat \<Rightarrow> string" where
  "fg r g b = CHR 0x1B # ''[38;2;'' @ decimal r @ '';'' @ decimal g @ '';'' @ decimal b @ ''m''"



subsection \<open>The speed factor\<close>

text \<open>
  The speed factor comes from \<^verbatim>\<open>strtof\<close>, which can return any value of the type
  \<^verbatim>\<open>float\<close>: a number, an infinity or a NaN. Only here the model keeps these apart.
\<close>

datatype cfloat = Finite real | PlusInf | MinusInf | NaN

text \<open>\<^verbatim>\<open>speedFactor <= 0\<close>: every comparison with a NaN is false.\<close>

definition le_zero :: "cfloat \<Rightarrow> bool" where
  "le_zero v = (case v of Finite r \<Rightarrow> r \<le> 0 | PlusInf \<Rightarrow> False | MinusInf \<Rightarrow> True | NaN \<Rightarrow> False)"

text \<open>
  Lines 132 to 139. \<^verbatim>\<open>strtof\<close> belongs to the C library and is a parameter: it maps
  the argument to the value and to the text it did not consume (\<^verbatim>\<open>endptr\<close>), so
  \<^verbatim>\<open>*endptr != '\0'\<close> says that this text is not empty. The result is the speed factor
  and the text written to \<^verbatim>\<open>stderr\<close>.
\<close>

definition read_speed :: "(string \<Rightarrow> cfloat \<times> string) \<Rightarrow> string \<Rightarrow> cfloat \<times> string" where
  "read_speed strtof arg =
     (case strtof arg of
        (speedFactor, endptr) \<Rightarrow>
          if endptr \<noteq> [] \<or> le_zero speedFactor then
            (Finite 1,
             ''Warning: Invalid speed factor '' @ [CHR 0x27] @ arg @ [CHR 0x27] @
             ''. Must be a positive number. Using default 1.0.'' @ [CHR 0x0A])
          else (speedFactor, []))"

definition baseSleep :: int where
  "baseSleep = 33333"

text \<open>
  \<^verbatim>\<open>baseSleep / speedFactor\<close>: the \<^verbatim>\<open>long\<close> is converted to \<^verbatim>\<open>float\<close> and the
  division is one of type \<^verbatim>\<open>float\<close>, so the quotient is rounded to the nearest
  \<^verbatim>\<open>float\<close>, or is an infinity beyond the largest. The quotient by a zero is an infinity
  (the model does not keep the sign of a zero; \<open>read_speed\<close> lets neither zero through).
\<close>

definition sleep_quotient :: "cfloat \<Rightarrow> cfloat" where
  "sleep_quotient speedFactor =
     (case speedFactor of
        Finite r \<Rightarrow>
          if r = 0 then PlusInf
          else
            (let q = to_float (to_float (real_of_int baseSleep) / r)
             in if FLT_MAX < q then PlusInf
                else if q < - FLT_MAX then MinusInf
                else Finite q)
      | PlusInf \<Rightarrow> Finite 0
      | MinusInf \<Rightarrow> Finite 0
      | NaN \<Rightarrow> NaN)"

text \<open>
  The cast \<^verbatim>\<open>(useconds_t)\<close>, to an unsigned integer of 32 bits: the fraction is
  discarded; C leaves the conversion undefined for a NaN, an infinity and a value whose
  integral part is not in the range.
\<close>

definition to_useconds :: "cfloat \<Rightarrow> nat option" where
  "to_useconds v =
     (case v of
        Finite q \<Rightarrow> if - 1 < q \<and> q < 2 ^ 32 then Some (nat (c_int q)) else None
      | PlusInf \<Rightarrow> None
      | MinusInf \<Rightarrow> None
      | NaN \<Rightarrow> None)"

text \<open>The argument of \<^verbatim>\<open>usleep\<close>: \<^verbatim>\<open>(useconds_t)(baseSleep / speedFactor)\<close>.\<close>

definition usleep_arg :: "cfloat \<Rightarrow> nat option" where
  "usleep_arg speedFactor = to_useconds (sleep_quotient speedFactor)"

subsection \<open>Emitting a frame\<close>

text \<open>
  \<^verbatim>\<open>strchr(s, ch)\<close> as a truth value: the terminating zero byte counts as part of the
  string.
\<close>

definition strchr :: "string \<Rightarrow> char \<Rightarrow> bool" where
  "strchr s ch = (ch \<in> set s \<or> ch = CHR 0x00)"

definition color_code :: "string list \<Rightarrow> char \<Rightarrow> string" where
  "color_code colorPalette ch =
     (if strchr ''.,-'' ch then colorPalette ! 0
      else if strchr ''~:;='' ch then colorPalette ! 1
      else if strchr ''!*#$@'' ch then colorPalette ! 2
      else [])"

text \<open>The body of the output loop at position \<open>k\<close>: what it writes to \<^verbatim>\<open>stdout\<close>.\<close>

definition emit_at :: "string list \<Rightarrow> char list \<Rightarrow> nat \<Rightarrow> string" where
  "emit_at colorPalette b k =
     (if k mod 80 = 0 then [CHR 0x0A]
      else
        (let ch = (if k < 1760 then b ! k else CHR 0x20)
         in color_code colorPalette ch @ [ch] @ CHR 0x1B # ''[0m''))"

text \<open>\<^verbatim>\<open>for (int k = 0; 1761 > k; k++)\<close>, from the current \<^verbatim>\<open>k\<close> on.\<close>

function emit_loop :: "string list \<Rightarrow> char list \<Rightarrow> nat \<Rightarrow> string" where
  "emit_loop colorPalette b k =
     (if 1761 > k then emit_at colorPalette b k @ emit_loop colorPalette b (k + 1) else [])"
  by pat_completeness auto
termination
  by (relation "measure (\<lambda>(colorPalette, b, k). 1761 - k)") auto

declare emit_loop.simps [simp del]

text \<open>\<^verbatim>\<open>printf("\x1b[H")\<close>, then the loop.\<close>

definition emit_frame :: "string list \<Rightarrow> char list \<Rightarrow> string" where
  "emit_frame colorPalette b = CHR 0x1B # ''[H'' @ emit_loop colorPalette b 0"

subsection \<open>One iteration of the main loop\<close>

text \<open>
  The result of \<^verbatim>\<open>read(STDIN_FILENO, &input_char, 1)\<close>: one byte (the call returns 1),
  nothing (0), or an error (-1) with the value of \<^verbatim>\<open>errno\<close>.
\<close>

datatype read_result = Read_Byte char | Read_Nothing | Read_Error nat

text \<open>The two values of \<^verbatim>\<open>errno\<close> the loop tolerates, as Linux numbers them.\<close>

definition EAGAIN :: nat where
  "EAGAIN = 11"

definition EWOULDBLOCK :: nat where
  "EWOULDBLOCK = 11"

text \<open>
  The variables of \<^verbatim>\<open>main\<close> that the loop changes, with the text written so far to
  \<^verbatim>\<open>stdout\<close> and to \<^verbatim>\<open>stderr\<close> and the arguments \<^verbatim>\<open>usleep\<close> was called with.
\<close>

record loop_state =
  angle_A :: real
  angle_B :: real
  quit :: bool
  stdout :: string
  stderr :: string
  slept :: "nat list"

text \<open>What stops a run besides a fault of the renderer: the undefined cast.\<close>

datatype stop = Render_Fault fault | Undefined_Conversion

text \<open>
  \<^verbatim>\<open>A += 0.04\<close> with \<^verbatim>\<open>A\<close> a \<^verbatim>\<open>float\<close> and the constant a \<^verbatim>\<open>double\<close>: the sum
  is formed in \<^verbatim>\<open>double\<close> and converted to \<^verbatim>\<open>float\<close> by the assignment.
\<close>

definition step_angle :: "real \<Rightarrow> real \<Rightarrow> real" where
  "step_angle a c = to_float (to_double (a + to_double c))"

text \<open>
  Lines 182 to 246: the frame is rendered and written and the angles advance. The speed
  factor has no part in it.
\<close>

definition advance_frame :: "string list \<Rightarrow> loop_state \<Rightarrow> stop + loop_state" where
  "advance_frame colorPalette st =
     (case render (angle_A st) (angle_B st) of
        Inl e \<Rightarrow> Inl (Render_Fault e)
      | Inr fr \<Rightarrow>
          Inr (st\<lparr>stdout := stdout st @ emit_frame colorPalette (bbuf fr),
                  angle_A := step_angle (angle_A st) 0.04,
                  angle_B := step_angle (angle_B st) 0.02\<rparr>))"

text \<open>
  Line 249, \<^verbatim>\<open>usleep((useconds_t)(baseSleep / speedFactor))\<close>: the run stops where the cast
  is undefined.
\<close>

definition pace :: "cfloat \<Rightarrow> loop_state \<Rightarrow> stop + loop_state" where
  "pace speedFactor st =
     (case usleep_arg speedFactor of
        None \<Rightarrow> Inl Undefined_Conversion
      | Some us \<Rightarrow> Inr (st\<lparr>slept := slept st @ [us]\<rparr>))"

text \<open>Lines 182 to 249: the frame, then the sleep.\<close>

definition draw_frame :: "string list \<Rightarrow> cfloat \<Rightarrow> loop_state \<Rightarrow> stop + loop_state" where
  "draw_frame colorPalette speedFactor st =
     (case advance_frame colorPalette st of
        Inl e \<Rightarrow> Inl e
      | Inr st' \<Rightarrow> pace speedFactor st')"

text \<open>
  Lines 163 to 180, then the rest of the body. \<^verbatim>\<open>perror\<close> writes its argument and the
  C library's text for \<^verbatim>\<open>errno\<close>; the model keeps the argument.
\<close>

definition iteration ::
  "string list \<Rightarrow> cfloat \<Rightarrow> read_result \<Rightarrow> loop_state \<Rightarrow> stop + loop_state" where
  "iteration colorPalette speedFactor r st =
     (case r of
        Read_Byte input_char \<Rightarrow>
          if input_char = CHR ''q'' \<or> input_char = CHR ''Q'' \<or> input_char = CHR 0x1B
          then Inr (st\<lparr>quit := True\<rparr>)
          else draw_frame colorPalette speedFactor st
      | Read_Nothing \<Rightarrow> draw_frame colorPalette speedFactor st
      | Read_Error errno \<Rightarrow>
          if errno \<noteq> EAGAIN \<and> errno \<noteq> EWOULDBLOCK
          then Inr (st\<lparr>quit := True, stderr := stderr st @ ''read stdin failed''\<rparr>)
          else draw_frame colorPalette speedFactor st)"

text \<open>
  The results of \<^verbatim>\<open>read\<close> on which \<open>iteration\<close> sets \<^verbatim>\<open>quit\<close>: one of the three
  keys, or an error other than the two tolerated ones.
\<close>

definition ends_loop :: "read_result \<Rightarrow> bool" where
  "ends_loop r =
     (case r of
        Read_Byte input_char \<Rightarrow>
          input_char = CHR ''q'' \<or> input_char = CHR ''Q'' \<or> input_char = CHR 0x1B
      | Read_Nothing \<Rightarrow> False
      | Read_Error errno \<Rightarrow> errno \<noteq> EAGAIN \<and> errno \<noteq> EWOULDBLOCK)"

text \<open>
  \<^verbatim>\<open>while (!quit)\<close> over the results of the successive calls of \<^verbatim>\<open>read\<close>. The loop
  has no bound of its own: \<open>None\<close> says that it is still running when the given results
  are used up.
\<close>

fun main_loop ::
  "string list \<Rightarrow> cfloat \<Rightarrow> read_result list \<Rightarrow> loop_state \<Rightarrow> (stop + loop_state) option" where
  "main_loop colorPalette speedFactor [] st = (if quit st then Some (Inr st) else None)"
| "main_loop colorPalette speedFactor (r # rs) st =
     (if quit st then Some (Inr st)
      else
        (case iteration colorPalette speedFactor r st of
           Inl e \<Rightarrow> Some (Inl e)
         | Inr st' \<Rightarrow> main_loop colorPalette speedFactor rs st'))"

subsection \<open>The program\<close>

text \<open>Whether \<^verbatim>\<open>tcgetattr\<close> and \<^verbatim>\<open>tcsetattr\<close> succeed in \<^verbatim>\<open>enableRawMode\<close>.\<close>

record terminal =
  tcgetattr_ok :: bool
  tcsetattr_ok :: bool

text \<open>A finished process: its exit status and what it wrote.\<close>

record finished =
  status :: int
  written :: string
  diagnostics :: string

text \<open>The text of \<^verbatim>\<open>-h\<close> and \<^verbatim>\<open>--help\<close>, lines 119 to 125.\<close>

definition usage :: "string \<Rightarrow> string" where
  "usage argv0 =
     ''Usage: '' @ argv0 @ '' [color] [speed]'' @ [CHR 0x0A] @
     ''Press 'q' or ESC to quit.'' @ [CHR 0x0A, CHR 0x0A] @
     ''Arguments:'' @ [CHR 0x0A] @
     ''  color          Color name (optional, default: green).'' @ [CHR 0x0A] @
     ''                 Available: green, red, blue, cyan, magenta, yellow, white'' @ [CHR 0x0A] @
     ''  speed          Positive speed factor (optional, default: 1.0).'' @ [CHR 0x0A] @
     ''                 > 1.0: faster, < 1.0: slower.'' @ [CHR 0x0A]"

text \<open>
  \<^verbatim>\<open>main\<close>, with \<^verbatim>\<open>argc\<close> the length of \<^verbatim>\<open>argv\<close>. \<^verbatim>\<open>enableRawMode\<close> leaves with
  status 1 when a terminal call fails (after \<^verbatim>\<open>atexit\<close>, \<^verbatim>\<open>disableRawMode\<close> still
  shows the cursor); otherwise it hides the cursor, the screen is cleared and the loop
  runs. The result is \<open>None\<close> while the loop is running, a stop, or the finished process.
\<close>

definition main ::
  "(string \<Rightarrow> cfloat \<times> string) \<Rightarrow> terminal \<Rightarrow> string list \<Rightarrow> read_result list \<Rightarrow>
   (stop + finished) option" where
  "main strtof tty argv reads =
     (let argc = length argv in
      if argc > 1 \<and> (argv ! 1 = ''-h'' \<or> argv ! 1 = ''--help'') then
        Some (Inr \<lparr>status = 0, written = usage (argv ! 0), diagnostics = []\<rparr>)
      else
        (let colorName = (if argc > 1 then argv ! 1 else ''gruen'');
             (speedFactor, warn_speed) =
               (if argc > 2 then read_speed strtof (argv ! 2) else (Finite 1, []));
             warn_args =
               (if argc > 3 then
                  ''Warning: Too many arguments. Use '' @ [CHR 0x27] @ argv ! 0 @
                  '' --help'' @ [CHR 0x27] @ '' for help.'' @ [CHR 0x0A]
                else []);
             (colorPalette, warn_color) = setColorPalette colorName;
             warnings = warn_speed @ warn_args @ warn_color
         in if \<not> tcgetattr_ok tty then
              Some (Inr \<lparr>status = 1, written = [], diagnostics = warnings @ ''tcgetattr failed''\<rparr>)
            else if \<not> tcsetattr_ok tty then
              Some (Inr \<lparr>status = 1, written = CHR 0x1B # ''[?25h'',
                         diagnostics = warnings @ ''tcsetattr failed''\<rparr>)
            else
              (case main_loop colorPalette speedFactor reads
                      \<lparr>angle_A = 0, angle_B = 0, quit = False,
                       stdout = CHR 0x1B # ''[?25l'' @ CHR 0x1B # ''[2J'',
                       stderr = warnings, slept = []\<rparr> of
                 None \<Rightarrow> None
               | Some (Inl e) \<Rightarrow> Some (Inl e)
               | Some (Inr st) \<Rightarrow>
                   Some (Inr \<lparr>status = 0, written = stdout st @ CHR 0x1B # ''[?25h'',
                              diagnostics = stderr st\<rparr>))))"

section \<open>Properties of the renderer\<close>

subsection \<open>Bounds on one sample\<close>

lemma in_grid_offset: "in_grid x y \<Longrightarrow> 81 \<le> offset x y \<and> offset x y \<le> 1759"
  by (simp add: in_grid_def offset_def)

lemma denominator_bounds:
  fixes c d e f g :: real
  assumes "\<bar>c\<bar> \<le> 1" "\<bar>d\<bar> \<le> 1" "\<bar>e\<bar> \<le> 1" "\<bar>f\<bar> \<le> 1" "\<bar>g\<bar> \<le> 1"
  shows "1 \<le> c * (d + 2) * e + f * g + 5 \<and> c * (d + 2) * e + f * g + 5 \<le> 9"
proof -
  have h: "\<bar>d + 2\<bar> \<le> 3" using assms by linarith
  have "\<bar>c * (d + 2)\<bar> \<le> 1 * 3"
    unfolding abs_mult using assms h by (intro mult_mono) auto
  then have "\<bar>c * (d + 2) * e\<bar> \<le> 3 * 1"
    unfolding abs_mult [of "c * (d + 2)" e] using assms by (intro mult_mono) auto
  moreover have "\<bar>f * g\<bar> \<le> 1 * 1"
    unfolding abs_mult using assms by (intro mult_mono) auto
  ultimately show ?thesis by linarith
qed

lemma luminance_sq:
  fixes c d e f g l m n :: real
  assumes "c\<^sup>2 + l\<^sup>2 = 1" "d\<^sup>2 + f\<^sup>2 = 1" "e\<^sup>2 + g\<^sup>2 = 1" "m\<^sup>2 + n\<^sup>2 = 1"
  shows "((f * e - c * d * g) * m - c * d * e - f * g - l * d * n)\<^sup>2 \<le> 2"
proof -
  define u where "u = f * e - c * d * g"
  define v where "v = l * d"
  define w where "w = c * d * e + f * g"
  define p where "p = m * u - n * v"
  have "u\<^sup>2 + w\<^sup>2 = (f\<^sup>2 + c\<^sup>2 * d\<^sup>2) * (e\<^sup>2 + g\<^sup>2)"
    by (simp add: u_def w_def power2_eq_square algebra_simps)
  then have uw: "u\<^sup>2 + w\<^sup>2 = f\<^sup>2 + c\<^sup>2 * d\<^sup>2"
    by (simp only: assms(3) mult_1_right)
  have "v\<^sup>2 = d\<^sup>2 * l\<^sup>2"
    by (simp add: v_def power2_eq_square algebra_simps)
  with uw have "u\<^sup>2 + v\<^sup>2 + w\<^sup>2 = f\<^sup>2 + (c\<^sup>2 * d\<^sup>2 + d\<^sup>2 * l\<^sup>2)"
    by linarith
  also have "\<dots> = f\<^sup>2 + d\<^sup>2 * (c\<^sup>2 + l\<^sup>2)"
    by (simp add: algebra_simps)
  finally have unit: "u\<^sup>2 + v\<^sup>2 + w\<^sup>2 = 1"
    using assms(1,2) by simp
  have "p\<^sup>2 + (m * v + n * u)\<^sup>2 = (m\<^sup>2 + n\<^sup>2) * (u\<^sup>2 + v\<^sup>2)"
    by (simp add: p_def power2_eq_square algebra_simps)
  then have pq: "p\<^sup>2 + (m * v + n * u)\<^sup>2 = 1 - w\<^sup>2"
    using assms(4) unit by simp
  have "2 - (p - w)\<^sup>2 = 2 * (1 - p\<^sup>2 - w\<^sup>2) + (p + w)\<^sup>2"
    by (simp add: power2_eq_square algebra_simps)
  also have "\<dots> = 2 * (m * v + n * u)\<^sup>2 + (p + w)\<^sup>2"
    using pq by simp
  also have "\<dots> \<ge> 0" by simp
  finally have "(p - w)\<^sup>2 \<le> 2" by simp
  moreover have "p - w = (f * e - c * d * g) * m - c * d * e - f * g - l * d * n"
    by (simp add: p_def u_def v_def w_def algebra_simps)
  ultimately show ?thesis by simp
qed

lemma c_int_lt: "r < 12 \<Longrightarrow> c_int r \<le> 11"
  unfolding c_int_def by (auto simp: floor_le_iff ceiling_le_iff) 

subsection \<open>Every frame is rendered without a fault\<close>

lemma clear_frame_ok: "frame_ok clear_frame"
  by (simp add: frame_ok_def clear_frame_def)

lemma ramp_index_le: "N \<le> 11 \<Longrightarrow> ramp_index N \<le> 11"
  by (simp add: ramp_index_def nat_le_iff)

lemma glyph_ramp: "N \<le> 11 \<Longrightarrow> glyph N = Inr (ramp ! ramp_index N)"
  using ramp_index_le [of N] by (simp add: glyph_def Let_def ramp_def)

lemma ramp_nth_in: "k \<le> 11 \<Longrightarrow> ramp ! k \<in> set ramp"
  by (rule nth_mem) (simp add: ramp_def)

lemma space_not_in_ramp: "CHR 0x20 \<notin> set ramp"
  by (simp add: ramp_def)

lemma plot_ok:
  assumes ok: "frame_ok fr" and D: "0 < D" "D \<le> 1" and N: "N \<le> 11"
  shows "\<exists>fr'. plot x y D N fr = Inr fr' \<and> frame_ok fr'"
proof (cases "in_grid x y \<and> D > zbuf fr ! nat (offset x y)")
  case False
  then show ?thesis
    using ok in_grid_offset [of x y] by (auto simp: plot_def)
next
  case True
  define k where "k = nat (offset x y)"
  define ch where "ch = ramp ! ramp_index N"
  have k: "k < 1760" using True in_grid_offset [of x y] by (simp add: k_def nat_less_iff)
  have ch: "ch \<in> set ramp" "ch \<noteq> CHR 0x20"
    using ramp_nth_in [OF ramp_index_le [OF N]] space_not_in_ramp by (auto simp: ch_def)
  have eq: "plot x y D N fr = Inr (fr\<lparr>zbuf := (zbuf fr)[k := D], bbuf := (bbuf fr)[k := ch]\<rparr>)"
    using True in_grid_offset [of x y] glyph_ramp [OF N] by (simp add: plot_def k_def ch_def)
  have "frame_ok (fr\<lparr>zbuf := (zbuf fr)[k := D], bbuf := (bbuf fr)[k := ch]\<rparr>)"
    using ok D ch k unfolding frame_ok_def by (simp add: nth_list_update)
  with eq show ?thesis by blast
qed

lemma sample_of_depth:
  assumes "\<bar>c\<bar> \<le> 1" "\<bar>d\<bar> \<le> 1" "\<bar>e\<bar> \<le> 1" "\<bar>f\<bar> \<le> 1" "\<bar>g\<bar> \<le> 1"
    and "sample_of c d e f g l m n = (x, y, D, N)"
  shows "D = 1 / (c * (d + 2) * e + f * g + 5) \<and> 0 < D \<and> D \<le> 1"
proof -
  have D: "D = 1 / (c * (d + 2) * e + f * g + 5)"
    using assms(6) by (simp add: sample_of_def Let_def)
  from denominator_bounds [OF assms(1-5)]
  have "1 \<le> c * (d + 2) * e + f * g + 5" by simp
  then show ?thesis unfolding D by (simp add: D)
qed

lemma sample_of_luminance:
  assumes "c\<^sup>2 + l\<^sup>2 = 1" "d\<^sup>2 + f\<^sup>2 = 1" "e\<^sup>2 + g\<^sup>2 = 1" "m\<^sup>2 + n\<^sup>2 = 1"
    and "sample_of c d e f g l m n = (x, y, D, N)"
  shows "N \<le> 11"
proof -
  define L where "L = (f * e - c * d * g) * m - c * d * e - f * g - l * d * n"
  have N: "N = c_int (8 * L)"
    using assms(5) by (simp add: sample_of_def Let_def L_def)
  have sq: "L\<^sup>2 \<le> 2" unfolding L_def by (rule luminance_sq [OF assms(1-4)])
  have "L < 3 / 2"
  proof (rule ccontr)
    assume "\<not> L < 3 / 2"
    then have "(3 / 2) * (3 / 2) \<le> L * L" by (intro mult_mono) auto
    with sq show False by (simp add: power2_eq_square)
  qed
  then have "8 * L < 12" by simp
  then show ?thesis unfolding N by (rule c_int_lt)
qed

lemma sample_at_ok:
  assumes "sample_at A B i j = (x, y, D, N)"
  shows "0 < D \<and> D \<le> 1 \<and> N \<le> 11"
proof -
  have s: "sample_of (sin i) (cos j) (sin A) (sin j) (cos A) (cos i) (cos B) (sin B) = (x, y, D, N)"
    using assms by (simp add: sample_at_def)
  have "D = 1 / (sin i * (cos j + 2) * sin A + sin j * cos A + 5) \<and> 0 < D \<and> D \<le> 1"
    by (rule sample_of_depth [OF _ _ _ _ _ s]) simp_all
  then have "0 < D \<and> D \<le> 1" by blast
  moreover have "N \<le> 11"
    by (rule sample_of_luminance [OF _ _ _ _ s]) (simp_all add: add.commute)
  ultimately show ?thesis by blast
qed

lemma inner_loop_ok:
  "frame_ok fr \<Longrightarrow> \<exists>fr'. inner_loop A B j i fr = Inr fr' \<and> frame_ok fr'"
proof (induction A B j i fr rule: inner_loop.induct)
  case (1 A B j i fr)
  show ?case
  proof (cases "6.28 > i")
    case False
    then show ?thesis using "1.prems" by (subst inner_loop.simps) simp
  next
    case True
    obtain x y D N where s: "sample_at A B i j = (x, y, D, N)"
      by (metis prod_cases4)
    from sample_at_ok [OF s] plot_ok [OF "1.prems", of D N x y]
    obtain fr1 where p: "plot x y D N fr = Inr fr1" and ok1: "frame_ok fr1" by blast
    from "1.IH" [OF True s [symmetric] refl refl p ok1] 
    obtain fr' where "inner_loop A B j (i + 0.02) fr1 = Inr fr'" "frame_ok fr'" by blast
    then show ?thesis using True s p by (subst inner_loop.simps) simp
  qed
qed

lemma outer_loop_ok:
  "frame_ok fr \<Longrightarrow> \<exists>fr'. outer_loop A B j fr = Inr fr' \<and> frame_ok fr'"
proof (induction A B j fr rule: outer_loop.induct)
  case (1 A B j fr)
  show ?case
  proof (cases "6.28 > j")
    case False
    then show ?thesis using "1.prems" by (subst outer_loop.simps) simp
  next
    case True
    from inner_loop_ok [OF "1.prems"]
    obtain fr1 where p: "inner_loop A B j 0 fr = Inr fr1" and ok1: "frame_ok fr1" by blast
    from "1.IH" [OF True p ok1]
    obtain fr' where "outer_loop A B (j + 0.07) fr1 = Inr fr'" "frame_ok fr'" by blast
    then show ?thesis using True p by (subst outer_loop.simps) simp
  qed
qed

lemma render_ok: "\<exists>fr. render A B = Inr fr \<and> frame_ok fr"
  unfolding render_def by (rule outer_loop_ok [OF clear_frame_ok])

subsection \<open>The coordinate guard\<close>

text \<open>
  C2. A sample writes only when its coordinates satisfy \<open>0 < x < 80\<close> and \<open>0 < y < 22\<close>; a
  sample outside leaves both buffers as they are. Under that guard \<open>o = x + 80 * y\<close> lies in
  \<open>[0, 1760)\<close>, so no sample reads or writes outside the buffers although \<open>o\<close> is not
  checked on its own: \<open>plot\<close> never reports \<open>Buffer_Out_Of_Bounds\<close>, a sample that changes
  the frame changes cell \<open>o\<close> only, and a whole frame is rendered without a fault.
\<close>

theorem guard_keeps_offset_in_bounds:
  "(in_grid x y \<longleftrightarrow> 0 < x \<and> x < 80 \<and> 0 < y \<and> y < 22) \<and>
   (\<not> in_grid x y \<longrightarrow> plot x y D N fr = Inr fr) \<and>
   (in_grid x y \<longrightarrow> 0 \<le> offset x y \<and> offset x y < 1760) \<and>
   plot x y D N fr \<noteq> Inl Buffer_Out_Of_Bounds \<and>
   (\<forall>fr'. plot x y D N fr = Inr fr' \<longrightarrow>
      fr' = fr \<or>
      (in_grid x y \<and> zbuf fr ! nat (offset x y) < D \<and>
       zbuf fr' = (zbuf fr)[nat (offset x y) := D] \<and>
       (\<exists>ch. bbuf fr' = (bbuf fr)[nat (offset x y) := ch]))) \<and>
   (\<exists>fr'. render A B = Inr fr')"
proof -
  have grid: "in_grid x y \<longleftrightarrow> 0 < x \<and> x < 80 \<and> 0 < y \<and> y < 22"
    by (auto simp: in_grid_def)
  have outside: "\<not> in_grid x y \<longrightarrow> plot x y D N fr = Inr fr"
    by (simp add: plot_def)
  have inside: "in_grid x y \<longrightarrow> 0 \<le> offset x y \<and> offset x y < 1760"
    using in_grid_offset [of x y] by auto
  have no_fault: "plot x y D N fr \<noteq> Inl Buffer_Out_Of_Bounds"
    using in_grid_offset [of x y]
    by (auto simp: plot_def glyph_def Let_def split: sum.splits)
  have one_cell: "\<forall>fr'. plot x y D N fr = Inr fr' \<longrightarrow>
      fr' = fr \<or>
      (in_grid x y \<and> zbuf fr ! nat (offset x y) < D \<and>
       zbuf fr' = (zbuf fr)[nat (offset x y) := D] \<and>
       (\<exists>ch. bbuf fr' = (bbuf fr)[nat (offset x y) := ch]))"
    by (auto simp: plot_def split: if_splits sum.splits)
  have whole: "\<exists>fr'. render A B = Inr fr'"
    using render_ok [of A B] by blast
  from grid outside inside no_fault one_cell whole show ?thesis by blast
qed

theorem guard_keeps_offset_in_bounds_witness:
  "in_grid 58 12 \<and> 0 \<le> offset 58 12 \<and> offset 58 12 < 1760 \<and>
   \<not> in_grid 80 5 \<and> plot 80 5 (1 / 2) 3 clear_frame = Inr clear_frame \<and>
   plot 58 12 (1 / 5) 0 clear_frame \<noteq> Inl Buffer_Out_Of_Bounds"
  using guard_keeps_offset_in_bounds [of 58 12 "1 / 5" 0 clear_frame 0 0]
    guard_keeps_offset_in_bounds [of 80 5 "1 / 2" 3 clear_frame 0 0]
  by (simp add: in_grid_def)

subsection \<open>Depths\<close>

lemma sample_at_depth_eq:
  "depth_of (sample_at A B i j) = 1 / (sin i * (cos j + 2) * sin A + sin j * cos A + 5)"
  by (simp add: depth_of_def sample_at_def sample_of_def Let_def)

text \<open>
  C9. For every sample the denominator \<open>c * h * e + f * g + 5\<close> lies in \<open>[1, 9]\<close>, so the
  inverse depth \<open>D\<close> is the quotient by a number that is not zero and lies in \<open>(0, 1]\<close>.
  Every frame the renderer returns has depths in \<open>[0, 1]\<close>, and the depth of a cell is
  positive exactly when the cell does not hold the blank.
\<close>

theorem depth_is_well_defined:
  "1 \<le> sin i * (cos j + 2) * sin A + sin j * cos A + 5 \<and>
   sin i * (cos j + 2) * sin A + sin j * cos A + 5 \<le> 9 \<and>
   depth_of (sample_at A B i j) = 1 / (sin i * (cos j + 2) * sin A + sin j * cos A + 5) \<and>
   0 < depth_of (sample_at A B i j) \<and> depth_of (sample_at A B i j) \<le> 1 \<and>
   (\<exists>fr. render A B = Inr fr \<and> length (zbuf fr) = 1760 \<and> length (bbuf fr) = 1760 \<and>
      (\<forall>k<1760. 0 \<le> zbuf fr ! k \<and> zbuf fr ! k \<le> 1 \<and>
         (0 < zbuf fr ! k \<longleftrightarrow> bbuf fr ! k \<noteq> CHR 0x20)))"
proof -
  have den: "1 \<le> sin i * (cos j + 2) * sin A + sin j * cos A + 5 \<and>
      sin i * (cos j + 2) * sin A + sin j * cos A + 5 \<le> 9"
    by (rule denominator_bounds) simp_all
  obtain x y D N where s: "sample_at A B i j = (x, y, D, N)"
    by (metis prod_cases4)
  have "depth_of (sample_at A B i j) = D"
    by (simp add: s depth_of_def)
  with sample_at_ok [OF s]
  have dep: "0 < depth_of (sample_at A B i j) \<and> depth_of (sample_at A B i j) \<le> 1"
    by simp
  from render_ok [of A B] obtain fr where fr: "render A B = Inr fr" "frame_ok fr"
    by blast
  from fr(2) have "length (zbuf fr) = 1760 \<and> length (bbuf fr) = 1760 \<and>
      (\<forall>k<1760. 0 \<le> zbuf fr ! k \<and> zbuf fr ! k \<le> 1 \<and>
         (0 < zbuf fr ! k \<longleftrightarrow> bbuf fr ! k \<noteq> CHR 0x20))"
    unfolding frame_ok_def by blast
  with fr(1) have "\<exists>fr. render A B = Inr fr \<and> length (zbuf fr) = 1760 \<and> length (bbuf fr) = 1760 \<and>
      (\<forall>k<1760. 0 \<le> zbuf fr ! k \<and> zbuf fr ! k \<le> 1 \<and>
         (0 < zbuf fr ! k \<longleftrightarrow> bbuf fr ! k \<noteq> CHR 0x20))"
    by blast
  with den dep sample_at_depth_eq [of A B i j] show ?thesis by blast
qed

theorem depth_is_well_defined_witness:
  "depth_of (sample_at 0 0 0 0) = 1 / 5 \<and>
   (\<exists>fr. render 0 0 = Inr fr \<and> (1018::nat) < 1760 \<and>
      0 \<le> zbuf fr ! 1018 \<and> zbuf fr ! 1018 \<le> 1 \<and>
      (0 < zbuf fr ! 1018 \<longleftrightarrow> bbuf fr ! 1018 \<noteq> CHR 0x20))"
proof -
  from depth_is_well_defined [of 0 0 0 0]
  have d: "depth_of (sample_at 0 0 0 0) = 1 / 5"
    by simp
  from depth_is_well_defined [of 0 0 0 0]
  obtain fr where fr: "render 0 0 = Inr fr"
    and cells: "\<forall>k<1760. 0 \<le> zbuf fr ! k \<and> zbuf fr ! k \<le> 1 \<and>
         (0 < zbuf fr ! k \<longleftrightarrow> bbuf fr ! k \<noteq> CHR 0x20)"
    by blast
  from cells have "0 \<le> zbuf fr ! 1018 \<and> zbuf fr ! 1018 \<le> 1 \<and>
      (0 < zbuf fr ! 1018 \<longleftrightarrow> bbuf fr ! 1018 \<noteq> CHR 0x20)"
    by simp
  with d fr show ?thesis by auto
qed

subsection \<open>Glyphs\<close>

lemma sample_at_origin: "sample_at 0 0 0 0 = (58, 12, 1 / 5, 0)"
  by (simp add: sample_at_def sample_of_def c_int_def)

text \<open>
  C4. The ramp has twelve glyphs. A luminance \<open>N \<le> 0\<close> selects index 0. For the sample
  at any angles the index is \<open>max N 0\<close> and at most 11, the glyph read is a glyph of the ramp,
  and when the sample passes the guard and the depth test that glyph and the depth are
  what cell \<open>o\<close> holds afterwards. The code has no upper clamp: the bound is a property of
  the luminance, whose square is at most 2 (\<open>luminance_sq\<close>).
\<close>

theorem glyph_index_within_ramp:
  "length ramp = 12 \<and>
   (\<forall>N\<le>0. ramp_index N = 0 \<and> glyph N = Inr (ramp ! 0)) \<and>
   (\<forall>x y D N. sample_at A B i j = (x, y, D, N) \<longrightarrow>
      ramp_index N = nat (max N 0) \<and> ramp_index N \<le> 11 \<and>
      glyph N = Inr (ramp ! ramp_index N) \<and> ramp ! ramp_index N \<in> set ramp \<and>
      (\<forall>fr. in_grid x y \<and> length (zbuf fr) = 1760 \<and> length (bbuf fr) = 1760 \<and>
            zbuf fr ! nat (offset x y) < D \<longrightarrow>
         (\<exists>fr'. plot x y D N fr = Inr fr' \<and>
            zbuf fr' ! nat (offset x y) = D \<and>
            bbuf fr' ! nat (offset x y) = ramp ! ramp_index N)))"
proof -
  have len: "length ramp = 12" by (simp add: ramp_def)
  have low: "\<forall>N\<le>0. ramp_index N = 0 \<and> glyph N = Inr (ramp ! 0)"
    by (simp add: ramp_index_def glyph_def ramp_def)
  have smp: "\<forall>x y D N. sample_at A B i j = (x, y, D, N) \<longrightarrow>
      ramp_index N = nat (max N 0) \<and> ramp_index N \<le> 11 \<and>
      glyph N = Inr (ramp ! ramp_index N) \<and> ramp ! ramp_index N \<in> set ramp \<and>
      (\<forall>fr. in_grid x y \<and> length (zbuf fr) = 1760 \<and> length (bbuf fr) = 1760 \<and>
            zbuf fr ! nat (offset x y) < D \<longrightarrow>
         (\<exists>fr'. plot x y D N fr = Inr fr' \<and>
            zbuf fr' ! nat (offset x y) = D \<and>
            bbuf fr' ! nat (offset x y) = ramp ! ramp_index N))"
  proof (intro allI impI)
    fix x y D N
    assume s: "sample_at A B i j = (x, y, D, N)"
    from sample_at_ok [OF s] have N: "N \<le> 11" by simp
    have a: "ramp_index N = nat (max N 0)"
      by (simp add: ramp_index_def max_def)
    have b: "ramp_index N \<le> 11" by (rule ramp_index_le [OF N])
    have c: "glyph N = Inr (ramp ! ramp_index N)" by (rule glyph_ramp [OF N])
    have d: "ramp ! ramp_index N \<in> set ramp" by (rule ramp_nth_in [OF b])
    have e: "\<forall>fr. in_grid x y \<and> length (zbuf fr) = 1760 \<and> length (bbuf fr) = 1760 \<and>
            zbuf fr ! nat (offset x y) < D \<longrightarrow>
         (\<exists>fr'. plot x y D N fr = Inr fr' \<and>
            zbuf fr' ! nat (offset x y) = D \<and>
            bbuf fr' ! nat (offset x y) = ramp ! ramp_index N)"
    proof (intro allI impI)
      fix fr :: frame
      assume h: "in_grid x y \<and> length (zbuf fr) = 1760 \<and> length (bbuf fr) = 1760 \<and>
            zbuf fr ! nat (offset x y) < D"
      then have k: "nat (offset x y) < 1760"
        using in_grid_offset [of x y] by (simp add: nat_less_iff)
      have "plot x y D N fr =
          Inr (fr\<lparr>zbuf := (zbuf fr)[nat (offset x y) := D],
                  bbuf := (bbuf fr)[nat (offset x y) := ramp ! ramp_index N]\<rparr>)"
        using h in_grid_offset [of x y] c by (simp add: plot_def)
      then show "\<exists>fr'. plot x y D N fr = Inr fr' \<and>
            zbuf fr' ! nat (offset x y) = D \<and>
            bbuf fr' ! nat (offset x y) = ramp ! ramp_index N"
        using h k by simp
    qed
    from a b c d e show "ramp_index N = nat (max N 0) \<and> ramp_index N \<le> 11 \<and>
      glyph N = Inr (ramp ! ramp_index N) \<and> ramp ! ramp_index N \<in> set ramp \<and>
      (\<forall>fr. in_grid x y \<and> length (zbuf fr) = 1760 \<and> length (bbuf fr) = 1760 \<and>
            zbuf fr ! nat (offset x y) < D \<longrightarrow>
         (\<exists>fr'. plot x y D N fr = Inr fr' \<and>
            zbuf fr' ! nat (offset x y) = D \<and>
            bbuf fr' ! nat (offset x y) = ramp ! ramp_index N))"
      by blast
  qed
  from len low smp show ?thesis by blast
qed

theorem glyph_index_within_ramp_witness:
  "sample_at 0 0 0 0 = (58, 12, 1 / 5, 0) \<and> ramp_index 0 = 0 \<and>
   glyph 0 = Inr (CHR ''.'') \<and> CHR ''.'' \<in> set ramp \<and>
   in_grid 58 12 \<and> zbuf clear_frame ! nat (offset 58 12) < 1 / 5 \<and>
   (\<exists>fr'. plot 58 12 (1 / 5) 0 clear_frame = Inr fr' \<and>
      zbuf fr' ! nat (offset 58 12) = 1 / 5 \<and> bbuf fr' ! nat (offset 58 12) = CHR ''.'') \<and>
   ramp_index (- 3) = 0 \<and> glyph (- 3) = Inr (CHR ''.'')"
proof -
  note t = glyph_index_within_ramp [of 0 0 0 0]
  have s: "sample_at 0 0 0 0 = (58, 12, 1 / 5, 0)" by (rule sample_at_origin)
  have r0: "ramp ! 0 = CHR ''.''" by (simp add: ramp_def)
  have i0: "ramp_index 0 = 0" by (simp add: ramp_index_def)
  have g: "in_grid 58 12" by (simp add: in_grid_def)
  have z: "zbuf clear_frame ! nat (offset 58 12) < 1 / 5"
    by (simp add: clear_frame_def offset_def)
  have l: "length (zbuf clear_frame) = 1760 \<and> length (bbuf clear_frame) = 1760"
    by (simp add: clear_frame_def)
  from t s have "glyph 0 = Inr (ramp ! ramp_index 0) \<and> ramp ! ramp_index 0 \<in> set ramp"
    by blast
  then have g0: "glyph 0 = Inr (CHR ''.'') \<and> CHR ''.'' \<in> set ramp"
    by (simp add: i0 r0)
  from t s g z l
  have "\<exists>fr'. plot 58 12 (1 / 5) 0 clear_frame = Inr fr' \<and>
      zbuf fr' ! nat (offset 58 12) = 1 / 5 \<and>
      bbuf fr' ! nat (offset 58 12) = ramp ! ramp_index 0"
    by blast
  then have p: "\<exists>fr'. plot 58 12 (1 / 5) 0 clear_frame = Inr fr' \<and>
      zbuf fr' ! nat (offset 58 12) = 1 / 5 \<and> bbuf fr' ! nat (offset 58 12) = CHR ''.''"
    by (simp add: i0 r0)
  from t have "ramp_index (- 3) = 0 \<and> glyph (- 3) = Inr (ramp ! 0)" by simp
  then have n: "ramp_index (- 3) = 0 \<and> glyph (- 3) = Inr (CHR ''.'')"
    by (simp add: r0)
  from s i0 g0 g z p n show ?thesis by blast
qed

subsection \<open>The loops as a list of samples\<close>

lemma plot_all_append:
  "plot_all (xs @ ys) fr = (case plot_all xs fr of Inl e \<Rightarrow> Inl e | Inr fr' \<Rightarrow> plot_all ys fr')"
  by (induction xs arbitrary: fr) (auto split: sum.splits)

lemma inner_loop_samples: "inner_loop A B j i fr = plot_all (inner_samples A B j i) fr"
proof (induction A B j i fr rule: inner_loop.induct)
  case (1 A B j i fr)
  show ?case
  proof (cases "6.28 > i")
    case False
    then show ?thesis by (subst inner_loop.simps, subst inner_samples.simps) simp
  next
    case True
    obtain x y D N where s: "sample_at A B i j = (x, y, D, N)"
      by (metis prod_cases4)
    show ?thesis
    proof (cases "plot x y D N fr")
      case (Inl e)
      with True s show ?thesis
        by (subst inner_loop.simps, subst inner_samples.simps) simp
    next
      case (Inr fr1)
      from "1.IH" [OF True s [symmetric] refl refl Inr]
      have "inner_loop A B j (i + 0.02) fr1 = plot_all (inner_samples A B j (i + 0.02)) fr1" .
      with True s Inr show ?thesis
        by (subst inner_loop.simps, subst inner_samples.simps) simp
    qed
  qed
qed

lemma outer_loop_samples: "outer_loop A B j fr = plot_all (outer_samples A B j) fr"
proof (induction A B j fr rule: outer_loop.induct)
  case (1 A B j fr)
  show ?case
  proof (cases "6.28 > j")
    case False
    then show ?thesis by (subst outer_loop.simps, subst outer_samples.simps) simp
  next
    case True
    show ?thesis
    proof (cases "inner_loop A B j 0 fr")
      case (Inl e)
      with True show ?thesis
        by (subst outer_loop.simps, subst outer_samples.simps)
          (simp add: plot_all_append inner_loop_samples [symmetric])
    next
      case (Inr fr1)
      from "1.IH" [OF True Inr]
      have "outer_loop A B (j + 0.07) fr1 = plot_all (outer_samples A B (j + 0.07)) fr1" .
      with True Inr show ?thesis
        by (subst outer_loop.simps, subst outer_samples.simps)
          (simp add: plot_all_append inner_loop_samples [symmetric])
    qed
  qed
qed

lemma render_samples: "render A B = plot_all (frame_samples A B) clear_frame"
  by (simp add: render_def frame_samples_def outer_loop_samples)

subsection \<open>The depth test\<close>

lemma plot_cell:
  assumes p: "plot x y D N fr = Inr fr'"
    and len: "length (zbuf fr) = 1760" "length (bbuf fr) = 1760" and k: "k < 1760"
  shows "length (zbuf fr') = 1760 \<and> length (bbuf fr') = 1760 \<and>
    (if hits k (x, y, D, N) \<and> zbuf fr ! k < D
     then zbuf fr' ! k = D \<and> glyph N = Inr (bbuf fr' ! k)
     else zbuf fr' ! k = zbuf fr ! k \<and> bbuf fr' ! k = bbuf fr ! k)"
  using p len k
  by (auto simp: plot_def hits_def nth_list_update split: if_splits sum.splits)

lemma plot_all_cell:
  assumes "plot_all ss fr = Inr fr'"
    and "length (zbuf fr) = 1760" "length (bbuf fr) = 1760" and "k < 1760"
  shows "length (zbuf fr') = 1760 \<and> length (bbuf fr') = 1760 \<and>
    (if \<exists>s\<in>set ss. hits k s \<and> zbuf fr ! k < depth_of s
     then \<exists>pre s post. ss = pre @ s # post \<and> hits k s \<and> zbuf fr ! k < depth_of s \<and>
            (\<forall>p\<in>set pre. hits k p \<longrightarrow> depth_of p < depth_of s) \<and>
            (\<forall>p\<in>set post. hits k p \<longrightarrow> depth_of p \<le> depth_of s) \<and>
            zbuf fr' ! k = depth_of s \<and> glyph_of s = Inr (bbuf fr' ! k)
     else zbuf fr' ! k = zbuf fr ! k \<and> bbuf fr' ! k = bbuf fr ! k)"
  using assms
proof (induction ss arbitrary: fr)
  case Nil
  then show ?case by simp
next
  case (Cons a ss)
  obtain x y D N where a: "a = (x, y, D, N)" by (metis prod_cases4)
  from Cons.prems(1) a obtain fr1 where p: "plot x y D N fr = Inr fr1"
    and rest: "plot_all ss fr1 = Inr fr'"
    by (auto split: sum.splits)
  note c = plot_cell [OF p Cons.prems(2,3,4)]
  from c have len1: "length (zbuf fr1) = 1760" "length (bbuf fr1) = 1760" by simp_all
  note ih = Cons.IH [OF rest len1 Cons.prems(4)]
  from ih have len': "length (zbuf fr') = 1760 \<and> length (bbuf fr') = 1760" by simp
  have da: "depth_of a = D" "glyph_of a = glyph N" by (simp_all add: a depth_of_def glyph_of_def)
  show ?case
  proof (cases "hits k a \<and> zbuf fr ! k < D")
    case True
    with c a have z1: "zbuf fr1 ! k = D" and b1: "glyph N = Inr (bbuf fr1 ! k)" by simp_all
    show ?thesis
    proof (cases "\<exists>s\<in>set ss. hits k s \<and> D < depth_of s")
      case later: True
      with ih z1 obtain pre s post where w: "ss = pre @ s # post" "hits k s" "D < depth_of s"
        "\<forall>p\<in>set pre. hits k p \<longrightarrow> depth_of p < depth_of s"
        "\<forall>p\<in>set post. hits k p \<longrightarrow> depth_of p \<le> depth_of s"
        "zbuf fr' ! k = depth_of s" "glyph_of s = Inr (bbuf fr' ! k)"
        by auto
      have "a # ss = (a # pre) @ s # post" using w(1) by simp
      moreover have "zbuf fr ! k < depth_of s" using True w(3) by simp
      moreover have "\<forall>p\<in>set (a # pre). hits k p \<longrightarrow> depth_of p < depth_of s"
        using w(3,4) da by simp
      ultimately have "\<exists>pre s post. a # ss = pre @ s # post \<and> hits k s \<and>
            zbuf fr ! k < depth_of s \<and>
            (\<forall>p\<in>set pre. hits k p \<longrightarrow> depth_of p < depth_of s) \<and>
            (\<forall>p\<in>set post. hits k p \<longrightarrow> depth_of p \<le> depth_of s) \<and>
            zbuf fr' ! k = depth_of s \<and> glyph_of s = Inr (bbuf fr' ! k)"
        using w(2,5,6,7) by blast
      moreover have "\<exists>s\<in>set (a # ss). hits k s \<and> zbuf fr ! k < depth_of s"
        using True da by simp
      ultimately show ?thesis using len' by (simp only: if_True if_False simp_thms)
    next
      case none: False
      with ih z1 have same: "zbuf fr' ! k = D" "bbuf fr' ! k = bbuf fr1 ! k" by auto
      have "a # ss = [] @ a # ss" by simp
      moreover have "\<forall>p\<in>set ss. hits k p \<longrightarrow> depth_of p \<le> depth_of a"
        using none da by auto
      moreover have "zbuf fr' ! k = depth_of a \<and> glyph_of a = Inr (bbuf fr' ! k)"
        using same b1 da by simp
      ultimately have "\<exists>pre s post. a # ss = pre @ s # post \<and> hits k s \<and>
            zbuf fr ! k < depth_of s \<and>
            (\<forall>p\<in>set pre. hits k p \<longrightarrow> depth_of p < depth_of s) \<and>
            (\<forall>p\<in>set post. hits k p \<longrightarrow> depth_of p \<le> depth_of s) \<and>
            zbuf fr' ! k = depth_of s \<and> glyph_of s = Inr (bbuf fr' ! k)"
        using True da by (intro exI [of _ "[]"] exI [of _ a] exI [of _ ss]) simp
      moreover have "\<exists>s\<in>set (a # ss). hits k s \<and> zbuf fr ! k < depth_of s"
        using True da by simp
      ultimately show ?thesis using len' by (simp only: if_True if_False simp_thms)
    qed
  next
    case False
    with c a have z1: "zbuf fr1 ! k = zbuf fr ! k" and b1: "bbuf fr1 ! k = bbuf fr ! k"
      by simp_all
    have skip: "hits k a \<longrightarrow> depth_of a \<le> zbuf fr ! k" using False da by auto
    show ?thesis
    proof (cases "\<exists>s\<in>set ss. hits k s \<and> zbuf fr ! k < depth_of s")
      case later: True
      with ih z1 obtain pre s post where w: "ss = pre @ s # post" "hits k s"
        "zbuf fr ! k < depth_of s"
        "\<forall>p\<in>set pre. hits k p \<longrightarrow> depth_of p < depth_of s"
        "\<forall>p\<in>set post. hits k p \<longrightarrow> depth_of p \<le> depth_of s"
        "zbuf fr' ! k = depth_of s" "glyph_of s = Inr (bbuf fr' ! k)"
        by auto
      have "a # ss = (a # pre) @ s # post" using w(1) by simp
      moreover have "\<forall>p\<in>set (a # pre). hits k p \<longrightarrow> depth_of p < depth_of s"
        using w(3,4) skip by auto
      ultimately have "\<exists>pre s post. a # ss = pre @ s # post \<and> hits k s \<and>
            zbuf fr ! k < depth_of s \<and>
            (\<forall>p\<in>set pre. hits k p \<longrightarrow> depth_of p < depth_of s) \<and>
            (\<forall>p\<in>set post. hits k p \<longrightarrow> depth_of p \<le> depth_of s) \<and>
            zbuf fr' ! k = depth_of s \<and> glyph_of s = Inr (bbuf fr' ! k)"
        using w(2,3,5,6,7) by blast
      moreover have "\<exists>s\<in>set (a # ss). hits k s \<and> zbuf fr ! k < depth_of s"
        using later by auto
      ultimately show ?thesis using len' by (simp only: if_True if_False simp_thms)
    next
      case none: False
      with ih z1 b1 have "zbuf fr' ! k = zbuf fr ! k \<and> bbuf fr' ! k = bbuf fr ! k" by auto
      moreover have "\<not> (\<exists>s\<in>set (a # ss). hits k s \<and> zbuf fr ! k < depth_of s)"
        using none skip by auto
      ultimately show ?thesis using len' by (simp only: if_True if_False simp_thms)
    qed
  qed
qed

lemma clear_frame_cells:
  "length (zbuf clear_frame) = 1760" "length (bbuf clear_frame) = 1760"
  "k < 1760 \<Longrightarrow> zbuf clear_frame ! k = 0" "k < 1760 \<Longrightarrow> bbuf clear_frame ! k = CHR 0x20"
  by (simp_all add: clear_frame_def)

lemma plot_all_depth:
  assumes run: "plot_all ss fr = Inr fr'"
    and len: "length (zbuf fr) = 1760" "length (bbuf fr) = 1760" and k: "k < 1760"
  shows "zbuf fr' ! k = Max (insert (zbuf fr ! k) (depth_of ` {s \<in> set ss. hits k s}))"
proof -
  let ?S = "insert (zbuf fr ! k) (depth_of ` {s \<in> set ss. hits k s})"
  have fin: "finite ?S" by simp
  note c = plot_all_cell [OF run len k]
  show ?thesis
  proof (cases "\<exists>s\<in>set ss. hits k s \<and> zbuf fr ! k < depth_of s")
    case True
    with c obtain pre s post where w: "ss = pre @ s # post" "hits k s" "zbuf fr ! k < depth_of s"
      "\<forall>p\<in>set pre. hits k p \<longrightarrow> depth_of p < depth_of s"
      "\<forall>p\<in>set post. hits k p \<longrightarrow> depth_of p \<le> depth_of s"
      "zbuf fr' ! k = depth_of s"
      by auto
    have "s \<in> set ss" using w(1) by simp
    with w(2) have mem: "depth_of s \<in> ?S" by blast
    have "\<forall>p\<in>set ss. hits k p \<longrightarrow> depth_of p \<le> depth_of s"
      using w(1,4,5) by auto
    then have ub: "\<And>y. y \<in> ?S \<Longrightarrow> y \<le> depth_of s"
      using w(3) by auto
    have "Max ?S = depth_of s"
      by (rule Max_eqI [OF fin ub mem])
    with w(6) show ?thesis by simp
  next
    case False
    with c have same: "zbuf fr' ! k = zbuf fr ! k" by auto
    have ub: "\<And>y. y \<in> ?S \<Longrightarrow> y \<le> zbuf fr ! k"
      using False by auto
    have mem: "zbuf fr ! k \<in> ?S" by (rule insertI1)
    have "Max ?S = zbuf fr ! k"
      by (rule Max_eqI [OF fin ub mem])
    with same show ?thesis by simp
  qed
qed

lemma hits_cell: "hits k s \<Longrightarrow> k < 1760"
proof -
  assume h: "hits k s"
  obtain x y D N where s: "s = (x, y, D, N)" by (metis prod_cases4)
  from h s have "in_grid x y" "k = nat (offset x y)" by (simp_all add: hits_def)
  with in_grid_offset [of x y] show ?thesis by (simp add: nat_less_iff)
qed

lemma plot_all_order:
  assumes run: "plot_all ss clear_frame = Inr fr"
    and run': "plot_all ss' clear_frame = Inr fr'"
    and perm: "mset ss' = mset ss"
  shows "zbuf fr' = zbuf fr \<and> (ties_agree ss \<longrightarrow> bbuf fr' = bbuf fr)"
proof -
  have sets: "set ss' = set ss" using perm by (rule mset_eq_setD)
  have lens: "length (zbuf fr) = 1760" "length (bbuf fr) = 1760"
      "length (zbuf fr') = 1760" "length (bbuf fr') = 1760"
    using plot_all_cell [OF run clear_frame_cells(1,2), of 0]
      plot_all_cell [OF run' clear_frame_cells(1,2), of 0] by simp_all
  have zk: "zbuf fr' ! k = zbuf fr ! k" if k: "k < 1760" for k
    using plot_all_depth [OF run clear_frame_cells(1,2) k]
      plot_all_depth [OF run' clear_frame_cells(1,2) k] sets by simp
  have z: "zbuf fr' = zbuf fr"
    by (rule nth_equalityI) (simp_all add: lens zk)
  have b: "bbuf fr' = bbuf fr" if tf: "ties_agree ss"
  proof (rule nth_equalityI)
    show "length (bbuf fr') = length (bbuf fr)" by (simp add: lens)
  next
    fix k assume "k < length (bbuf fr')"
    then have k: "k < 1760" by (simp add: lens)
    note c = plot_all_cell [OF run clear_frame_cells(1,2) k]
    note c' = plot_all_cell [OF run' clear_frame_cells(1,2) k]
    have z0: "zbuf clear_frame ! k = 0" by (rule clear_frame_cells(3) [OF k])
    show "bbuf fr' ! k = bbuf fr ! k"
    proof (cases "\<exists>s\<in>set ss. hits k s \<and> zbuf clear_frame ! k < depth_of s")
      case True
      with c obtain pre s post where w: "ss = pre @ s # post" "hits k s"
        "zbuf clear_frame ! k < depth_of s"
        "\<forall>p\<in>set pre. hits k p \<longrightarrow> depth_of p < depth_of s"
        "\<forall>p\<in>set post. hits k p \<longrightarrow> depth_of p \<le> depth_of s"
        "zbuf fr ! k = depth_of s" "glyph_of s = Inr (bbuf fr ! k)"
        by auto
      from True sets c' obtain pre' s' post' where w': "ss' = pre' @ s' # post'" "hits k s'"
        "zbuf fr' ! k = depth_of s'" "glyph_of s' = Inr (bbuf fr' ! k)"
        by auto
      have "s \<in> set ss" using w(1) by simp
      moreover have "s' \<in> set ss" using w'(1) sets by auto
      moreover have "depth_of s = depth_of s'" using zk [OF k] w(6) w'(3) by simp
      moreover have "0 < depth_of s" using w(3) z0 by simp
      moreover have "\<forall>p\<in>set ss. hits k p \<longrightarrow> depth_of p \<le> depth_of s"
        using w(1,4,5) by auto
      ultimately have "glyph_of s = glyph_of s'"
        using tf w(2) w'(2) unfolding ties_agree_def by blast
      with w(7) w'(4) show ?thesis by simp
    next
      case False
      with c have "bbuf fr ! k = bbuf clear_frame ! k" by auto
      moreover from False sets c' have "bbuf fr' ! k = bbuf clear_frame ! k" by auto
      ultimately show ?thesis by simp
    qed
  qed
  from z b show ?thesis by blast
qed

text \<open>Samples with a glyph to read are plotted without a fault.\<close>

lemma plot_all_runs:
  assumes "\<forall>s\<in>set ss. \<exists>ch. glyph_of s = Inr ch"
  shows "\<exists>fr'. plot_all ss fr = Inr fr'"
  using assms
proof (induction ss arbitrary: fr)
  case Nil
  then show ?case by simp
next
  case (Cons a ss)
  obtain x y D N where a: "a = (x, y, D, N)" by (metis prod_cases4)
  from Cons.prems a obtain ch where "glyph N = Inr ch" by (auto simp: glyph_of_def)
  then have "\<exists>fr1. plot x y D N fr = Inr fr1"
    using in_grid_offset [of x y] by (cases "in_grid x y") (simp_all add: plot_def)
  then obtain fr1 where "plot x y D N fr = Inr fr1" by blast
  moreover from Cons.IH [of fr1] Cons.prems obtain fr' where "plot_all ss fr1 = Inr fr'"
    by auto
  ultimately show ?case by (simp add: a)
qed

text \<open>A sample of maximal positive depth that is plotted first keeps its cell.\<close>

lemma head_keeps_cell:
  assumes run: "plot_all (s # rest) clear_frame = Inr fr"
    and s: "hits k s" "0 < depth_of s"
    and top: "\<forall>p\<in>set rest. hits k p \<longrightarrow> depth_of p \<le> depth_of s"
  shows "glyph_of s = Inr (bbuf fr ! k) \<and> zbuf fr ! k = depth_of s"
proof -
  have k: "k < 1760" by (rule hits_cell [OF s(1)])
  have z0: "zbuf clear_frame ! k = 0" by (rule clear_frame_cells(3) [OF k])
  note c = plot_all_cell [OF run clear_frame_cells(1,2) k]
  have "\<exists>q\<in>set (s # rest). hits k q \<and> zbuf clear_frame ! k < depth_of q"
    using s z0 by auto
  with c obtain pre w post where w: "s # rest = pre @ w # post" "hits k w"
    "\<forall>p\<in>set pre. hits k p \<longrightarrow> depth_of p < depth_of w"
    "zbuf fr ! k = depth_of w" "glyph_of w = Inr (bbuf fr ! k)"
    by auto
  have "pre = []"
  proof (rule ccontr)
    assume "pre \<noteq> []"
    then obtain pre' where pre: "pre = s # pre'" and rest: "rest = pre' @ w # post"
      using w(1) by (cases pre) auto
    from pre w(3) s(1) have "depth_of s < depth_of w" by simp
    moreover from rest top w(2) have "depth_of w \<le> depth_of s" by simp
    ultimately show False by simp
  qed
  with w(1) have "w = s" by simp
  with w(4,5) show ?thesis by simp
qed

lemma order_matters:
  assumes valid: "\<forall>s\<in>set ss. \<exists>ch. glyph_of s = Inr ch" and ties: "\<not> ties_agree ss"
  shows "\<exists>ss1 ss2 fr1 fr2. mset ss1 = mset ss \<and> mset ss2 = mset ss \<and>
    plot_all ss1 clear_frame = Inr fr1 \<and> plot_all ss2 clear_frame = Inr fr2 \<and>
    bbuf fr1 \<noteq> bbuf fr2"
proof -
  from ties obtain k s s' where t: "s \<in> set ss" "s' \<in> set ss" "hits k s" "hits k s'"
    "0 < depth_of s" "depth_of s = depth_of s'"
    "\<forall>p\<in>set ss. hits k p \<longrightarrow> depth_of p \<le> depth_of s" "glyph_of s \<noteq> glyph_of s'"
    unfolding ties_agree_def by blast
  let ?ss1 = "s # remove1 s ss" and ?ss2 = "s' # remove1 s' ss"
  have m1: "mset ?ss1 = mset ss" and m2: "mset ?ss2 = mset ss"
    using t(1,2) by simp_all
  have "\<forall>q\<in>set ?ss1. \<exists>ch. glyph_of q = Inr ch"
    using valid mset_eq_setD [OF m1] by blast
  from plot_all_runs [OF this] obtain fr1 where r1: "plot_all ?ss1 clear_frame = Inr fr1"
    by blast
  have "\<forall>q\<in>set ?ss2. \<exists>ch. glyph_of q = Inr ch"
    using valid mset_eq_setD [OF m2] by blast
  from plot_all_runs [OF this] obtain fr2 where r2: "plot_all ?ss2 clear_frame = Inr fr2"
    by blast
  have top1: "\<forall>p\<in>set (remove1 s ss). hits k p \<longrightarrow> depth_of p \<le> depth_of s"
    using t(7) notin_set_remove1 by fast
  have top2: "\<forall>p\<in>set (remove1 s' ss). hits k p \<longrightarrow> depth_of p \<le> depth_of s'"
    using t(6,7) notin_set_remove1 by fastforce
  from head_keeps_cell [OF r1 t(3,5) top1] have g1: "glyph_of s = Inr (bbuf fr1 ! k)"
    by simp
  from t(5,6) have "0 < depth_of s'" by simp
  from head_keeps_cell [OF r2 t(4) this top2] have g2: "glyph_of s' = Inr (bbuf fr2 ! k)"
    by simp
  from g1 g2 t(8) have "bbuf fr1 \<noteq> bbuf fr2" by auto
  with m1 m2 r1 r2 show ?thesis by blast
qed

subsection \<open>Sines and cosines on the grid of the loops\<close>

text \<open>
  Bounds on \<open>pi\<close> and on the sine and cosine of \<open>4.69\<close> and \<open>0.02\<close>, from the
  series of the two functions.
\<close>

lemma cos_series_bound:
  "\<bar>cos x - (\<Sum>m<n. cos_coeff m * x ^ m)\<bar> \<le> \<bar>x\<bar> ^ n / fact n"
proof -
  from Maclaurin_cos_expansion [of x n] obtain t where
    c: "cos x = (\<Sum>m<n. cos_coeff m * x ^ m) + (cos (t + 1/2 * real n * pi) / fact n) * x ^ n"
    by blast
  define r where "r = cos (t + 1/2 * real n * pi)"
  have r: "\<bar>r\<bar> \<le> 1" unfolding r_def by (rule abs_cos_le_one)
  have "cos x - (\<Sum>m<n. cos_coeff m * x ^ m) = r * x ^ n / fact n"
    using c by (simp add: r_def)
  then have "\<bar>cos x - (\<Sum>m<n. cos_coeff m * x ^ m)\<bar> = \<bar>r\<bar> * \<bar>x\<bar> ^ n / fact n"
    by (simp add: abs_mult power_abs)
  also have "\<dots> \<le> 1 * \<bar>x\<bar> ^ n / fact n"
    using r by (intro divide_right_mono mult_right_mono) simp_all
  finally show ?thesis by simp
qed

lemma cos_poly:
  fixes x :: real
  shows "(\<Sum>m<8. cos_coeff m * x ^ m) = 1 - x\<^sup>2 / 2 + x ^ 4 / 24 - x ^ 6 / 720"
proof -
  have "(\<Sum>m<8. f m) = f 0 + f 1 + f 2 + f 3 + f 4 + f 5 + f 6 + f 7" for f :: "nat \<Rightarrow> real"
    by (simp add: eval_nat_numeral)
  then show ?thesis
    by (simp add: cos_coeff_def fact_numeral)
qed

lemma cos_near:
  fixes x :: real
  shows "\<bar>cos x - (1 - x\<^sup>2 / 2 + x ^ 4 / 24 - x ^ 6 / 720)\<bar> \<le> \<bar>x\<bar> ^ 8 / 40320"
  using cos_series_bound [of x 8] by (simp add: cos_poly fact_numeral)

lemma cos_low: "0 < cos (3127 / 2000 :: real)"
proof -
  define x :: real where "x = 3127 / 2000"
  have "0 < (1 - x\<^sup>2 / 2 + x ^ 4 / 24 - x ^ 6 / 720) - \<bar>x\<bar> ^ 8 / 40320"
    by (simp add: x_def power_divide)
  with cos_near [of x] have "0 < cos x" by linarith
  then show ?thesis by (simp only: x_def)
qed

lemma cos_high: "cos (63 / 40 :: real) < 0"
proof -
  define x :: real where "x = 63 / 40"
  have "(1 - x\<^sup>2 / 2 + x ^ 4 / 24 - x ^ 6 / 720) + \<bar>x\<bar> ^ 8 / 40320 < 0"
    by (simp add: x_def power_divide)
  with cos_near [of x] have "cos x < 0" by linarith
  then show ?thesis by (simp only: x_def)
qed

lemma pi_bounds: "3.127 < pi \<and> pi < 3.15"
proof -
  have two: "2 \<le> pi" by (rule pi_ge_two)
  have "cos (pi / 2) < cos (3127 / 2000)" using cos_low by simp
  then have "3127 / 2000 < pi / 2"
    using two by (subst (asm) cos_mono_less_eq) simp_all
  moreover have "cos (63 / 40) < cos (pi / 2)" using cos_high by simp
  then have "pi / 2 < 63 / 40"
    using two by (subst (asm) cos_mono_less_eq) simp_all
  ultimately show ?thesis by simp
qed

lemma sin_near:
  fixes x :: real
  shows "\<bar>sin x - x\<bar> \<le> x\<^sup>2 / 2"
proof -
  have "(\<Sum>m<2. sin_coeff m * x ^ m) = x"
    by (simp add: eval_nat_numeral sin_coeff_def)
  with Maclaurin_sin_bound [of x 2] show ?thesis
    by (simp add: fact_numeral)
qed

lemma cos_near_one:
  fixes x :: real
  shows "\<bar>cos x - 1\<bar> \<le> x\<^sup>2 / 2"
proof -
  have "(\<Sum>m<2. cos_coeff m * x ^ m) = 1"
    by (simp add: eval_nat_numeral cos_coeff_def)
  with cos_series_bound [of x 2] show ?thesis
    by (simp add: fact_numeral)
qed

lemma ring_angle:
  "- 1 < sin (469 / 100 :: real) \<and> sin (469 / 100 :: real) \<le> - (99 / 100) \<and>
   - (7 / 200) < cos (469 / 100 :: real) \<and> cos (469 / 100 :: real) < 0"
proof -
  define t :: real where "t = 3 / 2 * pi - 469 / 100"
  have t: "0 < t" "t < 7 / 200" using pi_bounds by (simp_all add: t_def)
  have a: "(469 / 100 :: real) = pi / 2 - t + pi" by (simp add: t_def)
  have h1: "sin (pi / 2 - t) = cos t" using cos_sin_eq [of t] by simp
  have h2: "cos (pi / 2 - t) = sin t" using sin_cos_eq [of t] by simp
  have "sin (469 / 100 :: real) = sin (pi / 2 - t + pi)" by (subst a) (rule refl)
  also have "\<dots> = - sin (pi / 2 - t)" by (rule sin_periodic_pi)
  finally have s: "sin (469 / 100 :: real) = - cos t" by (simp only: h1)
  have "cos (469 / 100 :: real) = cos (pi / 2 - t + pi)" by (subst a) (rule refl)
  also have "\<dots> = - cos (pi / 2 - t)" by (rule cos_periodic_pi)
  finally have c: "cos (469 / 100 :: real) = - sin t" by (simp only: h2)
  have tpi: "t < pi" using t(2) pi_bounds by simp
  have pos: "0 < sin t" by (rule sin_gt_zero [OF t(1) tpi])
  have le: "sin t \<le> t" by (rule sin_x_le_x) (simp add: t(1) less_imp_le)
  have "t * t \<le> 7 / 200 * (7 / 200)" using t by (intro mult_mono) simp_all
  then have "t\<^sup>2 / 2 \<le> 1 / 100" by (simp add: power2_eq_square)
  with cos_near_one [of t] have big: "99 / 100 \<le> cos t" by linarith
  have "cos t \<noteq> 1"
  proof
    assume "cos t = 1"
    with sin_cos_squared_add [of t] have "(sin t)\<^sup>2 = 0" by simp
    then have "sin t = 0" by simp
    with pos show False by simp
  qed
  moreover have "cos t \<le> 1" by simp
  ultimately have lt: "cos t < 1" by linarith
  from s c pos le t big lt show ?thesis by simp
qed

lemma small_angle:
  "99 / 5000 \<le> sin (1 / 50 :: real) \<and> sin (1 / 50 :: real) \<le> 1 / 50 \<and>
   4999 / 5000 \<le> cos (1 / 50 :: real) \<and> cos (1 / 50 :: real) \<le> 1"
proof -
  have "\<bar>sin (1 / 50 :: real) - 1 / 50\<bar> \<le> 1 / 5000"
    using sin_near [of "1 / 50"] by (simp add: power2_eq_square)
  moreover have "sin (1 / 50 :: real) \<le> 1 / 50" by (rule sin_x_le_x) simp
  moreover have "\<bar>cos (1 / 50 :: real) - 1\<bar> \<le> 1 / 5000"
    using cos_near_one [of "1 / 50"] by (simp add: power2_eq_square)
  moreover have "cos (1 / 50 :: real) \<le> 1" by simp
  ultimately show ?thesis by linarith
qed

lemma c_int_eq:
  assumes "0 \<le> n" "of_int n \<le> r" "r < of_int n + 1"
  shows "c_int r = n"
proof -
  have "0 \<le> r" using assms(1,2) by (meson of_int_0_le_iff order_trans)
  moreover have "\<lfloor>r\<rfloor> = n" using assms(2,3) by (simp add: floor_eq_iff)
  ultimately show ?thesis by (simp add: c_int_def)
qed

text \<open>
  A sample of the first frame near the ring \<open>j = 4.69\<close> and \<open>i = 0\<close>: its cell and its
  depth.
\<close>

lemma ring_sample:
  fixes c d f l :: real
  assumes f: "- 1 < f" "f \<le> - (99 / 100)" and d: "- (7 / 200) < d" "d < 0"
    and c: "0 \<le> c" "c \<le> 1 / 50" and l: "4999 / 5000 \<le> l" "l \<le> 1"
  shows "\<exists>N. sample_of c d 0 f 1 l 1 0 = (54, 12, 1 / (f + 5), N) \<and>
    N = c_int (8 * (- (c * d) - f))"
proof -
  define D where "D = 1 / (f + 5)"
  define h where "h = d + 2"
  define q where "q = l * h"
  define r where "r = c * h"
  have h: "393 / 200 < h" "h < 2" using d by (simp_all add: h_def)
  have D: "100 / 401 \<le> D" "D < 1 / 4"
    using f unfolding D_def by (simp_all add: field_simps)
  have "4999 / 5000 * (393 / 200) \<le> l * h" using l h by (intro mult_mono) simp_all
  then have q1: "19 / 10 \<le> q" by (simp add: q_def)
  have "l * h \<le> 1 * h" using l h by (intro mult_right_mono) simp_all
  then have "l * h \<le> h" by (simp only: mult_1)
  with h(2) have q2: "q < 2" unfolding q_def by linarith
  have "100 / 401 * (19 / 10) \<le> D * q" using D q1 by (intro mult_mono) simp_all
  then have X1: "14 / 30 \<le> D * q" by simp
  have "D * q < 1 / 4 * 2" using D q1 q2 by (intro mult_strict_mono) simp_all
  then have X2: "D * q < 15 / 30" by simp
  have x: "c_int (40 + 30 * (D * q)) = 54"
    by (rule c_int_eq) (use X1 X2 in simp_all)
  have "c * h \<le> 1 / 50 * 2" using c h by (intro mult_mono) simp_all
  then have r1: "r \<le> 1 / 25" by (simp add: r_def)
  have r0: "0 \<le> r" using c h by (simp add: r_def)
  have Y0: "0 \<le> D * r" using D r0 by simp
  have "D * r \<le> 1 / 4 * (1 / 25)" using D r0 r1 by (intro mult_mono) simp_all
  then have Y1: "D * r \<le> 1 / 100" by simp
  have y: "c_int (12 + 15 * (D * r)) = 12"
    by (rule c_int_eq) (use Y0 Y1 in simp_all)
  have "sample_of c d 0 f 1 l 1 0 =
      (c_int (40 + 30 * (D * q)), c_int (12 + 15 * (D * r)), D,
       c_int (8 * (- (c * d) - f)))"
    by (simp add: sample_of_def Let_def D_def h_def q_def r_def)
  with x y show ?thesis by (simp add: D_def)
qed

lemma ring_head: "sample_at 0 0 0 (469 / 100) = (54, 12, 1 / (sin (469 / 100) + 5), 7)"
proof -
  note r = ring_angle
  have "\<exists>N. sample_of 0 (cos (469 / 100)) 0 (sin (469 / 100)) 1 1 1 0 =
        (54, 12, 1 / (sin (469 / 100) + 5), N) \<and>
      N = c_int (8 * (- (0 * cos (469 / 100)) - sin (469 / 100)))"
    by (rule ring_sample) (use r in simp_all)
  moreover have "c_int (8 * (- (0 * cos (469 / 100)) - sin (469 / 100 :: real))) = 7"
    by (rule c_int_eq) (use r in simp_all)
  ultimately show ?thesis by (simp add: sample_at_def)
qed

lemma ring_next:
  "sample_at 0 0 (1 / 50) (469 / 100) = (54, 12, 1 / (sin (469 / 100) + 5), 8)"
proof -
  note r = ring_angle and a = small_angle
  define c :: real where "c = sin (1 / 50)"
  define l :: real where "l = cos (1 / 50)"
  define f :: real where "f = sin (469 / 100)"
  define d :: real where "d = cos (469 / 100)"
  have c: "99 / 5000 \<le> c" "c \<le> 1 / 50" and l: "4999 / 5000 \<le> l" "l \<le> 1"
    using a by (simp_all add: c_def l_def)
  have f: "- 1 < f" "f \<le> - (99 / 100)" and d: "- (7 / 200) < d" "d < 0"
    using r by (simp_all add: f_def d_def)
  have unit: "d * d + f * f = 1"
    using sin_cos_squared_add [of "469 / 100 :: real"]
    by (simp add: f_def d_def power2_eq_square add.commute)
  have s: "\<exists>N. sample_of c d 0 f 1 l 1 0 = (54, 12, 1 / (f + 5), N) \<and>
      N = c_int (8 * (- (c * d) - f))"
    by (rule ring_sample) (use c l f d in simp_all)
  have "99 / 5000 * (199 / 100) \<le> c * (1 - f)" using c f by (intro mult_mono) simp_all
  then have "- d \<le> c * (1 - f)" using d by simp
  then have "(- d) * (- d) \<le> (- d) * (c * (1 - f))"
    using d by (intro mult_left_mono) simp_all
  moreover have "(- d) * (- d) = (1 + f) * (1 - f)"
    using unit by (simp add: algebra_simps)
  ultimately have "(1 + f) * (1 - f) \<le> (- (c * d)) * (1 - f)"
    by (simp add: algebra_simps)
  moreover have "0 < 1 - f" using f by simp
  ultimately have low: "1 + f \<le> - (c * d)"
    by (rule mult_right_le_imp_le)
  have "c * (- d) \<le> 1 / 50 * (7 / 200)" using c d by (intro mult_mono) simp_all
  then have up: "- (c * d) \<le> 1 / 1000" by simp
  have "c_int (8 * (- (c * d) - f)) = 8"
    by (rule c_int_eq) (use low up f in simp_all)
  with s show ?thesis by (simp add: sample_at_def c_def l_def f_def d_def)
qed

text \<open>Of the rings \<open>j = 0, 0.07, \<dots>\<close> below \<open>6.28\<close>, the ring \<open>j = 4.69\<close> is the deepest.\<close>

lemma ring_deepest:
  fixes j :: real
  assumes j: "0 \<le> j" "j < 628 / 100" and grid: "j \<le> 469 / 100 \<or> 476 / 100 \<le> j"
  shows "sin (469 / 100) \<le> sin j"
proof -
  note p = pi_bounds
  have r: "sin (469 / 100 :: real) = cos (469 / 100 - pi / 2)"
    using cos_sin_eq [of "469 / 100 - pi / 2"] by simp
  have r0: "sin (469 / 100 :: real) \<le> 0" using ring_angle by simp
  consider "j \<le> pi" | "pi \<le> j" "j \<le> 469 / 100" | "476 / 100 \<le> j"
    using grid by linarith
  then show ?thesis
  proof cases
    case 1
    then have "0 \<le> sin j" using j(1) by (intro sin_ge_zero) simp_all
    with r0 show ?thesis by simp
  next
    case 2
    have "sin j = cos (j - pi / 2)" using cos_sin_eq [of "j - pi / 2"] by simp
    moreover have "cos (469 / 100 - pi / 2) \<le> cos (j - pi / 2)"
      using 2 p by (intro cos_monotone_0_pi_le) simp_all
    ultimately show ?thesis using r by simp
  next
    case 3
    have "sin j = cos (j - pi / 2)" using cos_sin_eq [of "j - pi / 2"] by simp
    also have "\<dots> = cos (- (j - pi / 2) + 2 * pi)" by (simp only: cos_periodic cos_minus)
    also have "- (j - pi / 2) + 2 * pi = 5 / 2 * pi - j" by simp
    finally have e: "sin j = cos (5 / 2 * pi - j)" .
    have "cos (469 / 100 - pi / 2) \<le> cos (5 / 2 * pi - j)"
      using 3 j p by (intro cos_monotone_0_pi_le) simp_all
    with e r show ?thesis by simp
  qed
qed

subsection \<open>The samples of a frame\<close>

lemma inner_samples_member:
  "p \<in> set (inner_samples A B j i0) \<Longrightarrow> \<exists>i. p = sample_at A B i j"
proof (induction A B j i0 rule: inner_samples.induct)
  case (1 A B j i)
  show ?case
  proof (cases "6.28 > i")
    case False
    with "1.prems" show ?thesis by (subst (asm) inner_samples.simps) simp
  next
    case True
    from "1.prems" True
    have "p = sample_at A B i j \<or> p \<in> set (inner_samples A B j (i + 0.02))"
      by (subst (asm) inner_samples.simps) simp
    with "1.IH" [OF True] show ?thesis by blast
  qed
qed

lemma outer_samples_member:
  "p \<in> set (outer_samples A B j0) \<Longrightarrow>
   \<exists>i n. p = sample_at A B i (j0 + 7 / 100 * real n) \<and> j0 + 7 / 100 * real n < 628 / 100"
proof (induction A B j0 rule: outer_samples.induct)
  case (1 A B j)
  show ?case
  proof (cases "6.28 > j")
    case False
    with "1.prems" show ?thesis by (subst (asm) outer_samples.simps) simp
  next
    case True
    from "1.prems" True
    have "p \<in> set (inner_samples A B j 0) \<or> p \<in> set (outer_samples A B (j + 0.07))"
      by (subst (asm) outer_samples.simps) simp
    then show ?thesis
    proof
      assume "p \<in> set (inner_samples A B j 0)"
      from inner_samples_member [OF this] obtain i where "p = sample_at A B i j" by blast
      with True show ?thesis by (intro exI [of _ i] exI [of _ 0]) simp
    next
      assume "p \<in> set (outer_samples A B (j + 0.07))"
      from "1.IH" [OF True this] obtain i n where w:
        "p = sample_at A B i (j + 0.07 + 7 / 100 * real n)"
        "j + 0.07 + 7 / 100 * real n < 628 / 100" by blast
      have e: "j + 0.07 + 7 / 100 * real n = j + 7 / 100 * real (Suc n)"
        by (simp add: field_simps)
      from w show ?thesis
        unfolding e by (intro exI [of _ i] exI [of _ "Suc n"] conjI)
    qed
  qed
qed

lemma inner_samples_has:
  "i0 + 1 / 50 * real m < 628 / 100 \<Longrightarrow>
   sample_at A B (i0 + 1 / 50 * real m) j \<in> set (inner_samples A B j i0)"
proof (induction m arbitrary: i0)
  case 0
  then show ?case by (subst inner_samples.simps) simp
next
  case (Suc m)
  have e: "i0 + 0.02 + 1 / 50 * real m = i0 + 1 / 50 * real (Suc m)"
    by (simp add: field_simps)
  have "i0 + 0.02 + 1 / 50 * real m < 628 / 100" using Suc.prems by (simp only: e)
  from Suc.IH [OF this]
  have "sample_at A B (i0 + 1 / 50 * real (Suc m)) j \<in> set (inner_samples A B j (i0 + 0.02))"
    by (simp only: e)
  moreover have "0 \<le> 1 / 50 * real (Suc m)" by simp
  with Suc.prems have "i0 < 628 / 100" by linarith
  then have "6.28 > i0" by simp
  ultimately show ?case by (subst inner_samples.simps) simp
qed

lemma outer_samples_has:
  "j0 + 7 / 100 * real n < 628 / 100 \<Longrightarrow>
   set (inner_samples A B (j0 + 7 / 100 * real n) 0) \<subseteq> set (outer_samples A B j0)"
proof (induction n arbitrary: j0)
  case 0
  then show ?case by (subst outer_samples.simps) simp
next
  case (Suc n)
  have e: "j0 + 0.07 + 7 / 100 * real n = j0 + 7 / 100 * real (Suc n)"
    by (simp add: field_simps)
  have "j0 + 0.07 + 7 / 100 * real n < 628 / 100" using Suc.prems by (simp only: e)
  from Suc.IH [OF this]
  have "set (inner_samples A B (j0 + 7 / 100 * real (Suc n)) 0)
      \<subseteq> set (outer_samples A B (j0 + 0.07))"
    by (simp only: e)
  moreover have "0 \<le> 7 / 100 * real (Suc n)" by simp
  with Suc.prems have "j0 < 628 / 100" by linarith
  then have "6.28 > j0" by simp
  ultimately show ?case by (subst outer_samples.simps) auto
qed

lemma frame_samples_valid: "\<forall>s\<in>set (frame_samples A B). \<exists>ch. glyph_of s = Inr ch"
proof
  fix s assume "s \<in> set (frame_samples A B)"
  then obtain i j where s: "s = sample_at A B i j"
    unfolding frame_samples_def using outer_samples_member by blast
  obtain x y D N where e: "sample_at A B i j = (x, y, D, N)" by (metis prod_cases4)
  from sample_at_ok [OF e] have "N \<le> 11" by simp
  from glyph_ramp [OF this] show "\<exists>ch. glyph_of s = Inr ch"
    by (simp add: s e glyph_of_def)
qed

subsection \<open>The deepest ring of the first frame\<close>

lemma first_frame_ring:
  "sample_at 0 0 0 (469 / 100) \<in> set (frame_samples 0 0) \<and>
   sample_at 0 0 (1 / 50) (469 / 100) \<in> set (frame_samples 0 0)"
proof -
  have "set (inner_samples 0 0 (0 + 7 / 100 * real 67) 0) \<subseteq> set (outer_samples 0 0 0)"
    by (rule outer_samples_has) simp
  then have sub: "set (inner_samples 0 0 (469 / 100) 0) \<subseteq> set (frame_samples 0 0)"
    by (simp add: frame_samples_def)
  have "sample_at 0 0 (0 + 1 / 50 * real 0) (469 / 100) \<in> set (inner_samples 0 0 (469 / 100) 0)"
    by (rule inner_samples_has) simp
  moreover
  have "sample_at 0 0 (0 + 1 / 50 * real 1) (469 / 100) \<in> set (inner_samples 0 0 (469 / 100) 0)"
    by (rule inner_samples_has) simp
  ultimately show ?thesis using sub by auto
qed

lemma first_frame_depth:
  assumes "p \<in> set (frame_samples 0 0)"
  shows "depth_of p \<le> 1 / (sin (469 / 100) + 5)"
proof -
  from assms obtain i n where p: "p = sample_at 0 0 i (0 + 7 / 100 * real n)"
    and n: "0 + 7 / 100 * real n < (628 / 100 :: real)"
    unfolding frame_samples_def using outer_samples_member by blast
  define j :: real where "j = 7 / 100 * real n"
  have j: "0 \<le> j" "j < 628 / 100" using n by (simp_all add: j_def)
  have "n \<le> 67 \<or> 68 \<le> n" by linarith
  then have "j \<le> 469 / 100 \<or> 476 / 100 \<le> j"
  proof
    assume "n \<le> 67"
    then have "real n \<le> 67" by simp
    then show ?thesis by (simp add: j_def)
  next
    assume "68 \<le> n"
    then have "68 \<le> real n" by simp
    then show ?thesis by (simp add: j_def)
  qed
  from ring_deepest [OF j this] have le: "sin (469 / 100) + 5 \<le> sin j + 5" by simp
  have pos: "0 < sin (469 / 100 :: real) + 5" using ring_angle by simp
  have "depth_of p = 1 / (sin j + 5)"
    by (simp add: p j_def sample_at_def sample_of_def Let_def depth_of_def)
  also have "\<dots> \<le> 1 / (sin (469 / 100) + 5)"
    using le pos by (intro divide_left_mono) simp_all
  finally show ?thesis .
qed

lemma first_frame_ties: "\<not> ties_agree (frame_samples 0 0)"
proof
  assume t: "ties_agree (frame_samples 0 0)"
  define a where "a = sample_at 0 0 0 (469 / 100)"
  define b where "b = sample_at 0 0 (1 / 50) (469 / 100)"
  have a: "a = (54, 12, 1 / (sin (469 / 100) + 5), 7)" unfolding a_def by (rule ring_head)
  have b: "b = (54, 12, 1 / (sin (469 / 100) + 5), 8)" unfolding b_def by (rule ring_next)
  have mem: "a \<in> set (frame_samples 0 0)" "b \<in> set (frame_samples 0 0)"
    using first_frame_ring by (simp_all add: a_def b_def)
  have h: "hits 1014 a" "hits 1014 b"
    by (simp_all add: a b hits_def in_grid_def offset_def)
  have d: "depth_of a = 1 / (sin (469 / 100) + 5)" "depth_of b = 1 / (sin (469 / 100) + 5)"
    by (simp_all add: a b depth_of_def)
  have pos: "0 < depth_of a" using ring_angle by (simp add: d)
  have top: "\<forall>p\<in>set (frame_samples 0 0). hits 1014 p \<longrightarrow> depth_of p \<le> depth_of a"
    using first_frame_depth by (simp add: d)
  have "glyph_of a = glyph_of b"
    using t mem h pos top d unfolding ties_agree_def by metis
  then show False
    by (simp add: a b glyph_of_def glyph_def ramp_index_def ramp_def)
qed

subsection \<open>The depth test and the order of the samples\<close>

text \<open>
  C1, as the code has it. A frame is \<open>plot_all\<close> of its samples. After any list of samples,
  plotted from cleared buffers, the depth of a cell is the maximum of 0 and the depths of
  the samples that project to the cell. The cell is blank when none of them has a positive
  depth; otherwise it holds the glyph of the first sample in evaluation order that has the
  maximal depth (the test is the strict \<open>D > z[o]\<close>, so a later sample of the same depth does
  not replace it). Plotting a permutation of the samples gives the same depth buffer, and
  the same frame buffer when in every cell the samples of maximal positive depth carry one
  glyph (\<open>ties_agree\<close>). When the samples of a frame do not, two orders of them give
  different frame buffers.
\<close>

theorem depth_test_keeps_nearest:
  "render A B = plot_all (frame_samples A B) clear_frame \<and>
   (\<forall>ss fr k. plot_all ss clear_frame = Inr fr \<and> k < 1760 \<longrightarrow>
      zbuf fr ! k = Max (insert 0 (depth_of ` {s \<in> set ss. hits k s})) \<and>
      ((\<forall>s\<in>set ss. hits k s \<longrightarrow> depth_of s \<le> 0) \<longrightarrow> bbuf fr ! k = CHR 0x20) \<and>
      ((\<exists>s\<in>set ss. hits k s \<and> 0 < depth_of s) \<longrightarrow>
         (\<exists>pre s post. ss = pre @ s # post \<and> hits k s \<and> depth_of s = zbuf fr ! k \<and>
            glyph_of s = Inr (bbuf fr ! k) \<and>
            (\<forall>p\<in>set pre. hits k p \<longrightarrow> depth_of p < depth_of s))) \<and>
      (\<forall>ss' fr'. mset ss' = mset ss \<and> plot_all ss' clear_frame = Inr fr' \<longrightarrow>
         zbuf fr' = zbuf fr \<and> (ties_agree ss \<longrightarrow> bbuf fr' = bbuf fr))) \<and>
   (\<not> ties_agree (frame_samples A B) \<longrightarrow>
      (\<exists>ss1 ss2 fr1 fr2.
         mset ss1 = mset (frame_samples A B) \<and> mset ss2 = mset (frame_samples A B) \<and>
         plot_all ss1 clear_frame = Inr fr1 \<and> plot_all ss2 clear_frame = Inr fr2 \<and>
         bbuf fr1 \<noteq> bbuf fr2))"
proof -
  have one: "render A B = plot_all (frame_samples A B) clear_frame"
    by (rule render_samples)
  have two: "\<forall>ss fr k. plot_all ss clear_frame = Inr fr \<and> k < 1760 \<longrightarrow>
      zbuf fr ! k = Max (insert 0 (depth_of ` {s \<in> set ss. hits k s})) \<and>
      ((\<forall>s\<in>set ss. hits k s \<longrightarrow> depth_of s \<le> 0) \<longrightarrow> bbuf fr ! k = CHR 0x20) \<and>
      ((\<exists>s\<in>set ss. hits k s \<and> 0 < depth_of s) \<longrightarrow>
         (\<exists>pre s post. ss = pre @ s # post \<and> hits k s \<and> depth_of s = zbuf fr ! k \<and>
            glyph_of s = Inr (bbuf fr ! k) \<and>
            (\<forall>p\<in>set pre. hits k p \<longrightarrow> depth_of p < depth_of s))) \<and>
      (\<forall>ss' fr'. mset ss' = mset ss \<and> plot_all ss' clear_frame = Inr fr' \<longrightarrow>
         zbuf fr' = zbuf fr \<and> (ties_agree ss \<longrightarrow> bbuf fr' = bbuf fr))"
  proof (intro conjI allI impI)
    fix ss :: "sample list" and fr :: frame and k :: nat
    assume "plot_all ss clear_frame = Inr fr \<and> k < 1760"
    then have run: "plot_all ss clear_frame = Inr fr" and k: "k < 1760" by simp_all
    note c = plot_all_cell [OF run clear_frame_cells(1,2) k]
    show "zbuf fr ! k = Max (insert 0 (depth_of ` {s \<in> set ss. hits k s}))"
      using plot_all_depth [OF run clear_frame_cells(1,2) k] clear_frame_cells(3) [OF k]
      by simp
    {
      assume "\<forall>s\<in>set ss. hits k s \<longrightarrow> depth_of s \<le> 0"
      then have "\<not> (\<exists>s\<in>set ss. hits k s \<and> zbuf clear_frame ! k < depth_of s)"
        using clear_frame_cells(3) [OF k] by auto
      with c have "bbuf fr ! k = bbuf clear_frame ! k" by auto
      then show "bbuf fr ! k = CHR 0x20"
        using clear_frame_cells(4) [OF k] by simp
    }
    {
      assume "\<exists>s\<in>set ss. hits k s \<and> 0 < depth_of s"
      then have "\<exists>s\<in>set ss. hits k s \<and> zbuf clear_frame ! k < depth_of s"
        using clear_frame_cells(3) [OF k] by simp
      with c obtain pre s post where w: "ss = pre @ s # post" "hits k s"
        "\<forall>p\<in>set pre. hits k p \<longrightarrow> depth_of p < depth_of s"
        "zbuf fr ! k = depth_of s" "glyph_of s = Inr (bbuf fr ! k)"
        by auto
      then show "\<exists>pre s post. ss = pre @ s # post \<and> hits k s \<and> depth_of s = zbuf fr ! k \<and>
              glyph_of s = Inr (bbuf fr ! k) \<and>
              (\<forall>p\<in>set pre. hits k p \<longrightarrow> depth_of p < depth_of s)"
        by (intro exI [of _ pre] exI [of _ s] exI [of _ post]) simp
    }
    fix ss' :: "sample list" and fr' :: frame
    assume "mset ss' = mset ss \<and> plot_all ss' clear_frame = Inr fr'"
    then have o: "zbuf fr' = zbuf fr \<and> (ties_agree ss \<longrightarrow> bbuf fr' = bbuf fr)"
      using plot_all_order [OF run] by blast
    from o show "zbuf fr' = zbuf fr" by simp
    assume "ties_agree ss"
    with o show "bbuf fr' = bbuf fr" by simp
  qed
  have three: "\<not> ties_agree (frame_samples A B) \<longrightarrow>
      (\<exists>ss1 ss2 fr1 fr2.
         mset ss1 = mset (frame_samples A B) \<and> mset ss2 = mset (frame_samples A B) \<and>
         plot_all ss1 clear_frame = Inr fr1 \<and> plot_all ss2 clear_frame = Inr fr2 \<and>
         bbuf fr1 \<noteq> bbuf fr2)"
    by (rule impI) (rule order_matters [OF frame_samples_valid])
  show ?thesis by (rule conjI [OF one conjI [OF two three]])
qed

theorem depth_test_keeps_nearest_witness:
  "\<not> ties_agree (frame_samples 0 0) \<and>
   (\<exists>ss1 ss2 fr1 fr2.
      mset ss1 = mset (frame_samples 0 0) \<and> mset ss2 = mset (frame_samples 0 0) \<and>
      plot_all ss1 clear_frame = Inr fr1 \<and> plot_all ss2 clear_frame = Inr fr2 \<and>
      bbuf fr1 \<noteq> bbuf fr2) \<and>
   plot_all [(48, 4, 1 / 5, 7), (58, 12, 1 / 5, 0)] clear_frame =
     Inr \<lparr>zbuf = (replicate 1760 0)[368 := 1 / 5, 1018 := 1 / 5],
          bbuf = (replicate 1760 (CHR 0x20))[368 := CHR ''!'', 1018 := CHR ''.'']\<rparr> \<and>
   (368::nat) < 1760 \<and>
   (\<exists>s\<in>set [(48, 4, 1 / 5, 7), (58, 12, 1 / 5, 0)]. hits 368 s \<and> 0 < depth_of s) \<and>
   mset [(58, 12, 1 / 5, 0), (48, 4, 1 / 5, 7)] = mset [(48, 4, 1 / 5, 7), (58, 12, 1 / 5, 0)] \<and>
   plot_all [(58, 12, 1 / 5, 0), (48, 4, 1 / 5, 7)] clear_frame =
     Inr \<lparr>zbuf = (replicate 1760 0)[1018 := 1 / 5, 368 := 1 / 5],
          bbuf = (replicate 1760 (CHR 0x20))[1018 := CHR ''.'', 368 := CHR ''!'']\<rparr> \<and>
   ties_agree [(48, 4, 1 / 5, 7), (58, 12, 1 / 5, 0)] \<and>
   (replicate 1760 0)[368 := 1 / 5, 1018 := 1 / 5] ! 368 =
     Max (insert 0 (depth_of ` {s \<in> set [(48, 4, 1 / 5, 7), (58, 12, 1 / 5, 0)]. hits 368 s})) \<and>
   (\<exists>pre s post. [(48, 4, 1 / 5, 7), (58, 12, 1 / 5, 0)] = pre @ s # post \<and> hits 368 s \<and>
      depth_of s = (1 / 5 :: real) \<and> glyph_of s = Inr (CHR ''!'')) \<and>
   (replicate 1760 0)[1018 := 1 / 5, 368 := 1 / 5] =
     (replicate 1760 (0::real))[368 := 1 / 5, 1018 := 1 / 5] \<and>
   (replicate 1760 (CHR 0x20))[1018 := CHR ''.'', 368 := CHR ''!''] =
     (replicate 1760 (CHR 0x20))[368 := CHR ''!'', 1018 := CHR ''.'']"
proof -
  let ?ss = "[(48, 4, 1 / 5, 7), (58, 12, 1 / 5, 0)] :: sample list"
  let ?ss' = "[(58, 12, 1 / 5, 0), (48, 4, 1 / 5, 7)] :: sample list"
  let ?fr = "\<lparr>zbuf = (replicate 1760 0)[368 := 1 / 5, 1018 := 1 / 5],
          bbuf = (replicate 1760 (CHR 0x20))[368 := CHR ''!'', 1018 := CHR ''.'']\<rparr>"
  let ?fr' = "\<lparr>zbuf = (replicate 1760 0)[1018 := 1 / 5, 368 := 1 / 5],
          bbuf = (replicate 1760 (CHR 0x20))[1018 := CHR ''.'', 368 := CHR ''!'']\<rparr>"
  have run: "plot_all ?ss clear_frame = Inr ?fr"
    by (simp add: plot_def in_grid_def offset_def clear_frame_def glyph_def ramp_index_def
        ramp_def)
  have run': "plot_all ?ss' clear_frame = Inr ?fr'"
    by (simp add: plot_def in_grid_def offset_def clear_frame_def glyph_def ramp_index_def
        ramp_def)
  have k: "(368::nat) < 1760" by simp
  have e: "\<exists>s\<in>set ?ss. hits 368 s \<and> 0 < depth_of s"
    by (simp add: hits_def depth_of_def in_grid_def offset_def)
  have perm: "mset ?ss' = mset ?ss" by simp
  have tf: "ties_agree ?ss"
    by (auto simp: ties_agree_def hits_def depth_of_def in_grid_def offset_def)
  note t = depth_test_keeps_nearest [of 0 0, THEN conjunct2, THEN conjunct1, rule_format,
      OF conjI [OF run k]]
  note u = depth_test_keeps_nearest [of 0 0, THEN conjunct2, THEN conjunct2, rule_format,
      OF first_frame_ties]
  from t have m: "zbuf ?fr ! 368 = Max (insert 0 (depth_of ` {s \<in> set ?ss. hits 368 s}))"
    by (rule conjunct1)
  from t e have "\<exists>pre s post. ?ss = pre @ s # post \<and> hits 368 s \<and>
      depth_of s = zbuf ?fr ! 368 \<and> glyph_of s = Inr (bbuf ?fr ! 368) \<and>
      (\<forall>p\<in>set pre. hits 368 p \<longrightarrow> depth_of p < depth_of s)"
    by blast
  then have w: "\<exists>pre s post. ?ss = pre @ s # post \<and> hits 368 s \<and>
      depth_of s = (1 / 5 :: real) \<and> glyph_of s = Inr (CHR ''!'')"
    by simp blast
  from t perm run' tf have "zbuf ?fr' = zbuf ?fr \<and> bbuf ?fr' = bbuf ?fr"
    by blast
  with run k e perm run' tf m w have old:
   "plot_all [(48, 4, 1 / 5, 7), (58, 12, 1 / 5, 0)] clear_frame =
     Inr \<lparr>zbuf = (replicate 1760 0)[368 := 1 / 5, 1018 := 1 / 5],
          bbuf = (replicate 1760 (CHR 0x20))[368 := CHR ''!'', 1018 := CHR ''.'']\<rparr> \<and>
   (368::nat) < 1760 \<and>
   (\<exists>s\<in>set [(48, 4, 1 / 5, 7), (58, 12, 1 / 5, 0)]. hits 368 s \<and> 0 < depth_of s) \<and>
   mset [(58, 12, 1 / 5, 0), (48, 4, 1 / 5, 7)] = mset [(48, 4, 1 / 5, 7), (58, 12, 1 / 5, 0)] \<and>
   plot_all [(58, 12, 1 / 5, 0), (48, 4, 1 / 5, 7)] clear_frame =
     Inr \<lparr>zbuf = (replicate 1760 0)[1018 := 1 / 5, 368 := 1 / 5],
          bbuf = (replicate 1760 (CHR 0x20))[1018 := CHR ''.'', 368 := CHR ''!'']\<rparr> \<and>
   ties_agree [(48, 4, 1 / 5, 7), (58, 12, 1 / 5, 0)] \<and>
   (replicate 1760 0)[368 := 1 / 5, 1018 := 1 / 5] ! 368 =
     Max (insert 0 (depth_of ` {s \<in> set [(48, 4, 1 / 5, 7), (58, 12, 1 / 5, 0)]. hits 368 s})) \<and>
   (\<exists>pre s post. [(48, 4, 1 / 5, 7), (58, 12, 1 / 5, 0)] = pre @ s # post \<and> hits 368 s \<and>
      depth_of s = (1 / 5 :: real) \<and> glyph_of s = Inr (CHR ''!'')) \<and>
   (replicate 1760 0)[1018 := 1 / 5, 368 := 1 / 5] =
     (replicate 1760 (0::real))[368 := 1 / 5, 1018 := 1 / 5] \<and>
   (replicate 1760 (CHR 0x20))[1018 := CHR ''.'', 368 := CHR ''!''] =
     (replicate 1760 (CHR 0x20))[368 := CHR ''!'', 1018 := CHR ''.'']"
    by simp
  show ?thesis by (rule conjI [OF first_frame_ties conjI [OF u old]])
qed

text \<open>
  The frame buffer does depend on the order, on the first frame already (\<open>A = B = 0\<close>).
  There the ring \<open>j = 4.69\<close> is the deepest of the frame, with the depth
  \<open>1 / (sin 4.69 + 5)\<close> at every \<open>i\<close>; its samples at \<open>i = 0\<close> and \<open>i = 0.02\<close> both
  project to cell 1014 (\<open>x = 54\<close>, \<open>y = 12\<close>), with luminance 7 and 8. Plotting the samples
  of the frame with the one or the other in front leaves \<open>!\<close> or \<open>*\<close> in the cell, at the
  same depth.
\<close>

theorem depth_test_order_counterexample:
  "sample_at 0 0 0 4.69 = (54, 12, 1 / (sin 4.69 + 5), 7) \<and>
   sample_at 0 0 0.02 4.69 = (54, 12, 1 / (sin 4.69 + 5), 8) \<and>
   sample_at 0 0 0 4.69 \<in> set (frame_samples 0 0) \<and>
   sample_at 0 0 0.02 4.69 \<in> set (frame_samples 0 0) \<and>
   (\<exists>fr1 fr2.
      mset (sample_at 0 0 0 4.69 # remove1 (sample_at 0 0 0 4.69) (frame_samples 0 0)) =
        mset (frame_samples 0 0) \<and>
      mset (sample_at 0 0 0.02 4.69 # remove1 (sample_at 0 0 0.02 4.69) (frame_samples 0 0)) =
        mset (frame_samples 0 0) \<and>
      plot_all (sample_at 0 0 0 4.69 # remove1 (sample_at 0 0 0 4.69) (frame_samples 0 0))
        clear_frame = Inr fr1 \<and>
      plot_all (sample_at 0 0 0.02 4.69 # remove1 (sample_at 0 0 0.02 4.69) (frame_samples 0 0))
        clear_frame = Inr fr2 \<and>
      zbuf fr1 ! 1014 = zbuf fr2 ! 1014 \<and>
      bbuf fr1 ! 1014 = CHR ''!'' \<and> bbuf fr2 ! 1014 = CHR ''*'')"
proof -
  define a where "a = sample_at 0 0 0 (469 / 100)"
  define b where "b = sample_at 0 0 (1 / 50) (469 / 100)"
  define ss where "ss = frame_samples 0 0"
  have a: "a = (54, 12, 1 / (sin (469 / 100) + 5), 7)" unfolding a_def by (rule ring_head)
  have b: "b = (54, 12, 1 / (sin (469 / 100) + 5), 8)" unfolding b_def by (rule ring_next)
  have mem: "a \<in> set ss" "b \<in> set ss"
    using first_frame_ring by (simp_all add: a_def b_def ss_def)
  have h: "hits 1014 a" "hits 1014 b"
    by (simp_all add: a b hits_def in_grid_def offset_def)
  have d: "depth_of a = 1 / (sin (469 / 100) + 5)" "depth_of b = 1 / (sin (469 / 100) + 5)"
    by (simp_all add: a b depth_of_def)
  have pos: "0 < depth_of a" "0 < depth_of b" using ring_angle by (simp_all add: d)
  have top: "\<forall>p\<in>set ss. hits 1014 p \<longrightarrow> depth_of p \<le> 1 / (sin (469 / 100) + 5)"
    using first_frame_depth by (simp add: ss_def)
  have m1: "mset (a # remove1 a ss) = mset ss" and m2: "mset (b # remove1 b ss) = mset ss"
    using mem by simp_all
  have valid: "\<forall>s\<in>set ss. \<exists>ch. glyph_of s = Inr ch"
    unfolding ss_def by (rule frame_samples_valid)
  have "\<forall>q\<in>set (a # remove1 a ss). \<exists>ch. glyph_of q = Inr ch"
    using valid mset_eq_setD [OF m1] by blast
  from plot_all_runs [OF this] obtain fr1 where r1: "plot_all (a # remove1 a ss) clear_frame = Inr fr1"
    by blast
  have "\<forall>q\<in>set (b # remove1 b ss). \<exists>ch. glyph_of q = Inr ch"
    using valid mset_eq_setD [OF m2] by blast
  from plot_all_runs [OF this] obtain fr2 where r2: "plot_all (b # remove1 b ss) clear_frame = Inr fr2"
    by blast
  have top1: "\<forall>p\<in>set (remove1 a ss). hits 1014 p \<longrightarrow> depth_of p \<le> depth_of a"
    using top notin_set_remove1 unfolding d by fast
  have top2: "\<forall>p\<in>set (remove1 b ss). hits 1014 p \<longrightarrow> depth_of p \<le> depth_of b"
    using top notin_set_remove1 unfolding d by fast
  note k1 = head_keeps_cell [OF r1 h(1) pos(1) top1]
  note k2 = head_keeps_cell [OF r2 h(2) pos(2) top2]
  have g1: "bbuf fr1 ! 1014 = CHR ''!''"
    using k1 by (simp add: a glyph_of_def glyph_def ramp_index_def ramp_def)
  have g2: "bbuf fr2 ! 1014 = CHR ''*''"
    using k2 by (simp add: a b glyph_of_def glyph_def ramp_index_def ramp_def)
  have z: "zbuf fr1 ! 1014 = zbuf fr2 ! 1014" using k1 k2 d by simp
  have e: "(4.69 :: real) = 469 / 100" "(0.02 :: real) = 1 / 50" by simp_all
  have "a = (54, 12, 1 / (sin (469 / 100) + 5), 7) \<and>
    b = (54, 12, 1 / (sin (469 / 100) + 5), 8) \<and> a \<in> set ss \<and> b \<in> set ss \<and>
    (\<exists>fr1 fr2. mset (a # remove1 a ss) = mset ss \<and> mset (b # remove1 b ss) = mset ss \<and>
       plot_all (a # remove1 a ss) clear_frame = Inr fr1 \<and>
       plot_all (b # remove1 b ss) clear_frame = Inr fr2 \<and>
       zbuf fr1 ! 1014 = zbuf fr2 ! 1014 \<and>
       bbuf fr1 ! 1014 = CHR ''!'' \<and> bbuf fr2 ! 1014 = CHR ''*'')"
    using a b mem m1 m2 r1 r2 z g1 g2 by blast
  then show ?thesis unfolding e a_def b_def ss_def .
qed

section \<open>Properties of the frame driver\<close>

subsection \<open>Rounding\<close>

lemma pow2_powr: "pow2 e = 2 powr (real_of_int e)"
proof (cases "0 \<le> e")
  case True
  then have "2 powr (real_of_int e) = 2 powr real (nat e)" by simp
  also have "\<dots> = 2 ^ nat e" by (rule powr_realpow) simp
  finally show ?thesis using True by (simp only: pow2_def if_True)
next
  case False
  then have "2 powr (real_of_int e) = 2 powr (- real (nat (- e)))" by simp
  also have "\<dots> = inverse (2 powr real (nat (- e)))" by (rule powr_minus)
  also have "2 powr real (nat (- e)) = 2 ^ nat (- e)" by (rule powr_realpow) simp
  finally show ?thesis using False by (simp only: pow2_def if_False inverse_eq_divide)
qed

lemma pow2_pos: "0 < pow2 e"
  by (simp add: pow2_def)

lemma fround_binade:
  assumes "0 < x" "pow2 e \<le> x" "x < pow2 (e + 1)" "emin \<le> e"
  shows "fround p emin x = of_int (round_even (x / pow2 (e - int p + 1))) * pow2 (e - int p + 1)"
proof -
  have "\<lfloor>log 2 x\<rfloor> = e" using assms(1,2,3) by (simp add: floor_log_eq_powr_iff pow2_powr)
  then show ?thesis using assms(1,4) by (simp add: fround_def Let_def max_def)
qed

lemma round_even_nonneg: "0 \<le> x \<Longrightarrow> 0 \<le> round_even x"
  by (simp add: round_even_def)

lemma fround_nonneg: "0 \<le> x \<Longrightarrow> 0 \<le> fround p emin x"
  using pow2_pos less_imp_le [OF pow2_pos]
  by (simp add: fround_def Let_def round_even_nonneg)

lemma to_float_baseSleep: "to_float 33333 = 33333"
  unfolding to_float_def
  by (subst fround_binade [where e = 15]) (simp_all add: pow2_def round_even_def)

lemma to_float_half: "to_float (33333 / 2) = 33333 / 2"
  unfolding to_float_def
  by (subst fround_binade [where e = 14]) (simp_all add: pow2_def round_even_def)

lemma to_float_double: "to_float (33333 / (1 / 2)) = 66666"
  unfolding to_float_def
  by (subst fround_binade [where e = 16]) (simp_all add: pow2_def round_even_def)

lemma to_float_tenth: "to_float (33333 / (13421773 / 134217728)) = 333330"
  unfolding to_float_def
  by (subst fround_binade [where e = 18]) (simp_all add: pow2_def round_even_def)

lemma to_double_step_A: "to_double 0.04 = 5764607523034235 / 2 ^ 57"
  unfolding to_double_def
  by (subst fround_binade [where e = "- 5"]) (simp_all add: pow2_def round_even_def)

lemma to_double_step_B: "to_double 0.02 = 5764607523034235 / 2 ^ 58"
  unfolding to_double_def
  by (subst fround_binade [where e = "- 6"]) (simp_all add: pow2_def round_even_def)

lemma first_step_A: "step_angle 0 0.04 = 5368709 / 134217728"
proof -
  have a: "to_double (5764607523034235 / 2 ^ 57) = 5764607523034235 / 2 ^ 57"
    unfolding to_double_def
    by (subst fround_binade [where e = "- 5"]) (simp_all add: pow2_def round_even_def)
  have b: "to_float (5764607523034235 / 2 ^ 57) = 5368709 / 134217728"
    unfolding to_float_def
    by (subst fround_binade [where e = "- 5"]) (simp_all add: pow2_def round_even_def)
  show ?thesis by (simp only: step_angle_def to_double_step_A add_0 a b)
qed

lemma first_step_B: "step_angle 0 0.02 = 5368709 / 268435456"
proof -
  have a: "to_double (5764607523034235 / 2 ^ 58) = 5764607523034235 / 2 ^ 58"
    unfolding to_double_def
    by (subst fround_binade [where e = "- 6"]) (simp_all add: pow2_def round_even_def)
  have b: "to_float (5764607523034235 / 2 ^ 58) = 5368709 / 268435456"
    unfolding to_float_def
    by (subst fround_binade [where e = "- 6"]) (simp_all add: pow2_def round_even_def)
  show ?thesis by (simp only: step_angle_def to_double_step_B add_0 a b)
qed

lemma stall_A: "step_angle (2 ^ 20) 0.04 = 2 ^ 20"
proof -
  have a: "to_double (2 ^ 20 + 5764607523034235 / 2 ^ 57) = 2 ^ 20 + 171798692 / 2 ^ 32"
    unfolding to_double_def
    by (subst fround_binade [where e = 20]) (simp_all add: pow2_def round_even_def)
  have b: "to_float (2 ^ 20 + 171798692 / 2 ^ 32) = 2 ^ 20"
    unfolding to_float_def
    by (subst fround_binade [where e = 20]) (simp_all add: pow2_def round_even_def)
  show ?thesis by (simp only: step_angle_def to_double_step_A a b)
qed

lemma stall_B: "step_angle (2 ^ 19) 0.02 = 2 ^ 19"
proof -
  have a: "to_double (2 ^ 19 + 5764607523034235 / 2 ^ 58) = 2 ^ 19 + 171798692 / 2 ^ 33"
    unfolding to_double_def
    by (subst fround_binade [where e = 19]) (simp_all add: pow2_def round_even_def)
  have b: "to_float (2 ^ 19 + 171798692 / 2 ^ 33) = 2 ^ 19"
    unfolding to_float_def
    by (subst fround_binade [where e = 19]) (simp_all add: pow2_def round_even_def)
  show ?thesis by (simp only: step_angle_def to_double_step_B a b)
qed

subsection \<open>The speed factor and the sleep\<close>

lemma usleep_arg_two: "usleep_arg (Finite 2) = Some 16666"
  by (simp add: usleep_arg_def sleep_quotient_def to_useconds_def baseSleep_def c_int_def
      to_float_baseSleep to_float_half FLT_MAX_def Let_def)

lemma usleep_arg_one: "usleep_arg (Finite 1) = Some 33333"
  by (simp add: usleep_arg_def sleep_quotient_def to_useconds_def baseSleep_def c_int_def
      to_float_baseSleep FLT_MAX_def Let_def)

lemma usleep_arg_tenth: "usleep_arg (Finite (13421773 / 134217728)) = Some 333330"
proof -
  have "sleep_quotient (Finite (13421773 / 134217728)) = Finite 333330"
    by (simp only: sleep_quotient_def cfloat.case baseSleep_def of_int_numeral
        to_float_baseSleep to_float_tenth Let_def)
      (simp add: FLT_MAX_def)
  then show ?thesis by (simp add: usleep_arg_def to_useconds_def c_int_def)
qed

lemma sleep_quotient_positive:
  assumes r: "0 < r" and fits: "to_float (33333 / r) < 2 ^ 32"
  shows "sleep_quotient (Finite r) = Finite (to_float (33333 / r)) \<and>
    usleep_arg (Finite r) = Some (nat \<lfloor>to_float (33333 / r)\<rfloor>)"
proof -
  define q where "q = to_float (33333 / r)"
  have "0 \<le> 33333 / r" using r by simp
  then have q0: "0 \<le> q" unfolding q_def to_float_def by (rule fround_nonneg)
  have q1: "q < 2 ^ 32" using fits by (simp only: q_def)
  have "(2 :: real) ^ 32 \<le> FLT_MAX" by (simp add: FLT_MAX_def)
  with q1 have q2: "q \<le> FLT_MAX" by linarith
  have "0 \<le> FLT_MAX" by (simp add: FLT_MAX_def)
  with q0 have q3: "- FLT_MAX \<le> q" by linarith
  have "to_float (to_float (real_of_int baseSleep) / r) = q"
    by (simp only: baseSleep_def of_int_numeral to_float_baseSleep q_def)
  then have sq: "sleep_quotient (Finite r) = Finite q"
    using r q2 q3 by (simp add: sleep_quotient_def Let_def)
  have tu: "to_useconds (Finite q) = Some (nat \<lfloor>q\<rfloor>)"
    using q0 q1 by (simp add: to_useconds_def c_int_def)
  from sq tu show ?thesis by (simp only: usleep_arg_def q_def simp_thms)
qed

text \<open>
  C5, as the code has it. The argument of \<^verbatim>\<open>usleep\<close> is the quotient
  \<open>baseSleep / speedFactor\<close>, a division of type \<^verbatim>\<open>float\<close> whose result is rounded to
  the nearest \<^verbatim>\<open>float\<close>, with its fraction discarded by the cast. For the speed factor 2
  this is 16666 microseconds. In general, for a positive speed factor whose rounded
  quotient fits 32 bits, it is the largest whole number of microseconds not above the
  rounded quotient.
\<close>

theorem usleep_arg_truncates:
  "usleep_arg (Finite 2) = Some 16666 \<and>
   (\<forall>r. 0 < r \<and> to_float (real_of_int baseSleep / r) < 2 ^ 32 \<longrightarrow>
      sleep_quotient (Finite r) = Finite (to_float (33333 / r)) \<and>
      usleep_arg (Finite r) = Some (nat \<lfloor>to_float (33333 / r)\<rfloor>) \<and>
      real (nat \<lfloor>to_float (33333 / r)\<rfloor>) \<le> to_float (33333 / r) \<and>
      to_float (33333 / r) < real (nat \<lfloor>to_float (33333 / r)\<rfloor>) + 1)"
proof (intro conjI allI impI)
  show "usleep_arg (Finite 2) = Some 16666" by (rule usleep_arg_two)
next
  fix r :: real
  assume h: "0 < r \<and> to_float (real_of_int baseSleep / r) < 2 ^ 32"
  define q where "q = to_float (33333 / r)"
  from h have r: "0 < r" and fits: "to_float (33333 / r) < 2 ^ 32"
    by (simp_all add: baseSleep_def)
  note s = sleep_quotient_positive [OF r fits]
  have "0 \<le> 33333 / r" using r by simp
  then have q0: "0 \<le> q" unfolding q_def to_float_def by (rule fround_nonneg)
  then have "0 \<le> \<lfloor>q\<rfloor>" by simp
  then have eq: "real (nat \<lfloor>q\<rfloor>) = of_int \<lfloor>q\<rfloor>" by simp
  have lo: "real (nat \<lfloor>q\<rfloor>) \<le> q" unfolding eq by (rule of_int_floor_le)
  have hi: "q < real (nat \<lfloor>q\<rfloor>) + 1" unfolding eq by linarith
  show "sleep_quotient (Finite r) = Finite (to_float (33333 / r))"
    by (rule s [THEN conjunct1])
  show "usleep_arg (Finite r) = Some (nat \<lfloor>to_float (33333 / r)\<rfloor>)"
    by (rule s [THEN conjunct2])
  show "real (nat \<lfloor>to_float (33333 / r)\<rfloor>) \<le> to_float (33333 / r)"
    using lo by (simp only: q_def)
  show "to_float (33333 / r) < real (nat \<lfloor>to_float (33333 / r)\<rfloor>) + 1"
    using hi by (simp only: q_def)
qed

theorem usleep_arg_truncates_witness:
  "(0::real) < 1 / 2 \<and> to_float (real_of_int baseSleep / (1 / 2)) < 2 ^ 32 \<and>
   sleep_quotient (Finite (1 / 2)) = Finite 66666 \<and>
   usleep_arg (Finite (1 / 2)) = Some 66666 \<and> usleep_arg (Finite 2) = Some 16666 \<and>
   (0::real) < 13421773 / 134217728 \<and>
   to_float (real_of_int baseSleep / (13421773 / 134217728)) < 2 ^ 32 \<and>
   usleep_arg (Finite (13421773 / 134217728)) = Some 333330"
proof -
  have a: "(0::real) < 1 / 2 \<and> to_float (real_of_int baseSleep / (1 / 2)) < 2 ^ 32"
    by (simp only: baseSleep_def of_int_numeral to_float_double) simp
  have b: "(0::real) < 13421773 / 134217728 \<and>
      to_float (real_of_int baseSleep / (13421773 / 134217728)) < 2 ^ 32"
    by (simp only: baseSleep_def of_int_numeral to_float_tenth) simp
  note t = usleep_arg_truncates [THEN conjunct2, rule_format, OF a]
  note u = usleep_arg_truncates [THEN conjunct2, rule_format, OF b]
  note v = usleep_arg_truncates [THEN conjunct1]
  have c: "sleep_quotient (Finite (1 / 2)) = Finite 66666"
    using t [THEN conjunct1] by (simp only: to_float_double)
  have d: "usleep_arg (Finite (1 / 2)) = Some 66666"
    using t [THEN conjunct2, THEN conjunct1] by (simp only: to_float_double) simp
  have e: "usleep_arg (Finite (13421773 / 134217728)) = Some 333330"
    using u [THEN conjunct2, THEN conjunct1] by (simp only: to_float_tenth) simp
  from a c d v b e show ?thesis by (intro conjI) simp_all
qed

text \<open>
  Half of the baseline is 16666.5 microseconds; \<^verbatim>\<open>usleep\<close> receives 16666, which is not
  half of 33333. For the speed factor 0.1, the \<^verbatim>\<open>float\<close> \<open>13421773 / 2 ^ 27\<close>,
  \<^verbatim>\<open>usleep\<close> receives 333330, which is more than the quotient of the two numbers.
\<close>

theorem usleep_arg_counterexample:
  "usleep_arg (Finite 2) = Some 16666 \<and> real 16666 \<noteq> real_of_int baseSleep / 2 \<and>
   (2 * 16666 :: nat) \<noteq> 33333 \<and>
   usleep_arg (Finite (13421773 / 134217728)) = Some 333330 \<and>
   real_of_int baseSleep / (13421773 / 134217728) < 333330"
  by (simp add: usleep_arg_two usleep_arg_tenth baseSleep_def)

subsection \<open>One iteration\<close>

lemma iteration_draws:
  "\<not> ends_loop r \<Longrightarrow> iteration colorPalette speedFactor r st = draw_frame colorPalette speedFactor st"
  by (cases r) (auto simp: ends_loop_def iteration_def)


lemma advance_frame_runs:
  "\<exists>fr. render (angle_A st) (angle_B st) = Inr fr \<and>
     advance_frame colorPalette st =
       Inr (st\<lparr>stdout := stdout st @ emit_frame colorPalette (bbuf fr),
               angle_A := step_angle (angle_A st) 0.04,
               angle_B := step_angle (angle_B st) 0.02\<rparr>)"
proof -
  from render_ok [of "angle_A st" "angle_B st"]
  obtain fr where fr: "render (angle_A st) (angle_B st) = Inr fr" by blast
  then show ?thesis by (simp add: advance_frame_def)
qed

lemma nan_frame_stops:
  assumes "\<not> ends_loop r"
  shows "iteration colorPalette NaN r st = Inl Undefined_Conversion"
proof -
  from advance_frame_runs [of st colorPalette]
  obtain st' where a: "advance_frame colorPalette st = Inr st'" by blast
  have "usleep_arg NaN = None"
    by (simp add: usleep_arg_def sleep_quotient_def to_useconds_def)
  then show ?thesis
    by (simp add: iteration_draws [OF assms] draw_frame_def a pace_def)
qed





subsection \<open>The rotation angles\<close>

text \<open>
  C6, as the code has it. Every frame is rendered without a fault and written, and then
  \<open>A\<close> and \<open>B\<close> are replaced by the sums \<open>A + 0.04\<close> and \<open>B + 0.02\<close>, formed in
  \<^verbatim>\<open>double\<close> and rounded to \<^verbatim>\<open>float\<close>; the speed factor has no part in this. An
  iteration whose \<^verbatim>\<open>read\<close> does not end the loop is this step followed by
  \<^verbatim>\<open>usleep\<close>, in whose argument alone the speed factor occurs; where the cast of the
  quotient is undefined the run stops there, after the angles have advanced.
\<close>

theorem angles_advance_by_fixed_step:
  "(\<exists>fr. render (angle_A st) (angle_B st) = Inr fr \<and>
      advance_frame colorPalette st =
        Inr (st\<lparr>stdout := stdout st @ emit_frame colorPalette (bbuf fr),
                angle_A := to_float (to_double (angle_A st + to_double 0.04)),
                angle_B := to_float (to_double (angle_B st + to_double 0.02))\<rparr>)) \<and>
   (\<not> ends_loop r \<longrightarrow>
      iteration colorPalette speedFactor r st =
        (case advance_frame colorPalette st of
           Inl e \<Rightarrow> Inl e
         | Inr st' \<Rightarrow>
             (case usleep_arg speedFactor of
                None \<Rightarrow> Inl Undefined_Conversion
              | Some us \<Rightarrow> Inr (st'\<lparr>slept := slept st' @ [us]\<rparr>))) \<and>
      (\<forall>st'. iteration colorPalette speedFactor r st = Inr st' \<longrightarrow>
         angle_A st' = to_float (to_double (angle_A st + to_double 0.04)) \<and>
         angle_B st' = to_float (to_double (angle_B st + to_double 0.02))))"
proof -
  from advance_frame_runs [of st colorPalette]
  obtain fr where fr: "render (angle_A st) (angle_B st) = Inr fr"
    and adv: "advance_frame colorPalette st =
        Inr (st\<lparr>stdout := stdout st @ emit_frame colorPalette (bbuf fr),
                angle_A := step_angle (angle_A st) 0.04,
                angle_B := step_angle (angle_B st) 0.02\<rparr>)"
    by blast
  have one: "\<exists>fr. render (angle_A st) (angle_B st) = Inr fr \<and>
      advance_frame colorPalette st =
        Inr (st\<lparr>stdout := stdout st @ emit_frame colorPalette (bbuf fr),
                angle_A := to_float (to_double (angle_A st + to_double 0.04)),
                angle_B := to_float (to_double (angle_B st + to_double 0.02))\<rparr>)"
    using fr adv unfolding step_angle_def by blast
  have two: "iteration colorPalette speedFactor r st =
        (case advance_frame colorPalette st of
           Inl e \<Rightarrow> Inl e
         | Inr st' \<Rightarrow>
             (case usleep_arg speedFactor of
                None \<Rightarrow> Inl Undefined_Conversion
              | Some us \<Rightarrow> Inr (st'\<lparr>slept := slept st' @ [us]\<rparr>))) \<and>
      (\<forall>st'. iteration colorPalette speedFactor r st = Inr st' \<longrightarrow>
         angle_A st' = to_float (to_double (angle_A st + to_double 0.04)) \<and>
         angle_B st' = to_float (to_double (angle_B st + to_double 0.02)))"
    if r: "\<not> ends_loop r"
  proof (intro conjI allI impI)
    show it: "iteration colorPalette speedFactor r st =
        (case advance_frame colorPalette st of
           Inl e \<Rightarrow> Inl e
         | Inr st' \<Rightarrow>
             (case usleep_arg speedFactor of
                None \<Rightarrow> Inl Undefined_Conversion
              | Some us \<Rightarrow> Inr (st'\<lparr>slept := slept st' @ [us]\<rparr>)))"
      by (simp add: iteration_draws [OF r] draw_frame_def pace_def split: sum.splits)
    fix st'
    assume "iteration colorPalette speedFactor r st = Inr st'"
    with it adv have "angle_A st' = step_angle (angle_A st) 0.04 \<and>
        angle_B st' = step_angle (angle_B st) 0.02"
      by (cases "usleep_arg speedFactor") auto
    then show "angle_A st' = to_float (to_double (angle_A st + to_double 0.04))"
      and "angle_B st' = to_float (to_double (angle_B st + to_double 0.02))"
      by (simp_all only: step_angle_def)
  qed
  from one two show ?thesis by blast
qed

theorem angles_advance_by_fixed_step_witness:
  "\<not> ends_loop Read_Nothing \<and>
   (\<exists>fr. render 0 0 = Inr fr \<and>
      advance_frame [''a'', ''b'', ''c'']
          \<lparr>angle_A = 0, angle_B = 0, quit = False, stdout = [], stderr = [], slept = []\<rparr> =
        Inr \<lparr>angle_A = 5368709 / 134217728, angle_B = 5368709 / 268435456, quit = False,
             stdout = emit_frame [''a'', ''b'', ''c''] (bbuf fr), stderr = [], slept = []\<rparr> \<and>
      iteration [''a'', ''b'', ''c''] (Finite 2) Read_Nothing
          \<lparr>angle_A = 0, angle_B = 0, quit = False, stdout = [], stderr = [], slept = []\<rparr> =
        Inr \<lparr>angle_A = 5368709 / 134217728, angle_B = 5368709 / 268435456, quit = False,
             stdout = emit_frame [''a'', ''b'', ''c''] (bbuf fr), stderr = [],
             slept = [16666]\<rparr> \<and>
      iteration [''a'', ''b'', ''c''] (Finite 1) Read_Nothing
          \<lparr>angle_A = 0, angle_B = 0, quit = False, stdout = [], stderr = [], slept = []\<rparr> =
        Inr \<lparr>angle_A = 5368709 / 134217728, angle_B = 5368709 / 268435456, quit = False,
             stdout = emit_frame [''a'', ''b'', ''c''] (bbuf fr), stderr = [],
             slept = [33333]\<rparr> \<and>
      iteration [''a'', ''b'', ''c''] NaN Read_Nothing
          \<lparr>angle_A = 0, angle_B = 0, quit = False, stdout = [], stderr = [], slept = []\<rparr> =
        Inl Undefined_Conversion)"
proof -
  define st0 where
    "st0 = \<lparr>angle_A = 0, angle_B = 0, quit = False, stdout = [], stderr = [], slept = []\<rparr>"
  have r: "\<not> ends_loop Read_Nothing" by (simp add: ends_loop_def)
  have n: "usleep_arg NaN = None"
    by (simp add: usleep_arg_def sleep_quotient_def to_useconds_def)
  have s: "to_float (to_double (0 + to_double 0.04)) = 5368709 / 134217728"
      "to_float (to_double (0 + to_double 0.02)) = 5368709 / 268435456"
    using first_step_A first_step_B by (simp_all only: step_angle_def)
  note t = angles_advance_by_fixed_step [of st0 "[''a'', ''b'', ''c'']" Read_Nothing]
  from t [of NaN, THEN conjunct1] obtain fr where fr: "render 0 0 = Inr fr"
    and adv: "advance_frame [''a'', ''b'', ''c''] st0 =
        Inr \<lparr>angle_A = 5368709 / 134217728, angle_B = 5368709 / 268435456, quit = False,
             stdout = emit_frame [''a'', ''b'', ''c''] (bbuf fr), stderr = [], slept = []\<rparr>"
    unfolding st0_def by (auto simp only: loop_state.simps s append_Nil)
  have two: "iteration [''a'', ''b'', ''c''] (Finite 2) Read_Nothing st0 =
        Inr \<lparr>angle_A = 5368709 / 134217728, angle_B = 5368709 / 268435456, quit = False,
             stdout = emit_frame [''a'', ''b'', ''c''] (bbuf fr), stderr = [],
             slept = [16666]\<rparr>"
    using t [of "Finite 2", THEN conjunct2, rule_format, OF r, THEN conjunct1]
    by (simp add: adv usleep_arg_two)
  have one: "iteration [''a'', ''b'', ''c''] (Finite 1) Read_Nothing st0 =
        Inr \<lparr>angle_A = 5368709 / 134217728, angle_B = 5368709 / 268435456, quit = False,
             stdout = emit_frame [''a'', ''b'', ''c''] (bbuf fr), stderr = [],
             slept = [33333]\<rparr>"
    using t [of "Finite 1", THEN conjunct2, rule_format, OF r, THEN conjunct1]
    by (simp add: adv usleep_arg_one)
  have nan: "iteration [''a'', ''b'', ''c''] NaN Read_Nothing st0 = Inl Undefined_Conversion"
    using t [of NaN, THEN conjunct2, rule_format, OF r, THEN conjunct1]
    by (simp add: adv n)
  from r fr adv two one nan show ?thesis unfolding st0_def by blast
qed

text \<open>
  The step is not exactly 0.04 and 0.02: the first iteration takes \<open>A\<close> from 0 to
  \<open>5368709 / 2 ^ 27\<close> and \<open>B\<close> to \<open>5368709 / 2 ^ 28\<close>, the numbers of type \<^verbatim>\<open>float\<close>
  nearest to the two constants. Nor does an angle always grow: at \<open>A = 2 ^ 20\<close> and at
  \<open>B = 2 ^ 19\<close> the rounded sum is the angle itself.
\<close>

theorem angles_step_counterexample:
  "(\<exists>fr. render 0 0 = Inr fr \<and>
      iteration [''a'', ''b'', ''c''] (Finite 1) Read_Nothing
          \<lparr>angle_A = 0, angle_B = 0, quit = False, stdout = [], stderr = [], slept = []\<rparr> =
        Inr \<lparr>angle_A = 5368709 / 134217728, angle_B = 5368709 / 268435456, quit = False,
             stdout = emit_frame [''a'', ''b'', ''c''] (bbuf fr), stderr = [],
             slept = [33333]\<rparr>) \<and>
   (5368709 / 134217728 :: real) \<noteq> 0 + 0.04 \<and> (5368709 / 268435456 :: real) \<noteq> 0 + 0.02 \<and>
   step_angle (2 ^ 20) 0.04 = 2 ^ 20 \<and> step_angle (2 ^ 19) 0.02 = 2 ^ 19"
proof -
  define st0 where
    "st0 = \<lparr>angle_A = 0, angle_B = 0, quit = False, stdout = [], stderr = [], slept = []\<rparr>"
  from advance_frame_runs [of st0 "[''a'', ''b'', ''c'']"]
  obtain fr where fr: "render 0 0 = Inr fr"
    and adv: "advance_frame [''a'', ''b'', ''c''] st0 =
        Inr \<lparr>angle_A = 5368709 / 134217728, angle_B = 5368709 / 268435456, quit = False,
             stdout = emit_frame [''a'', ''b'', ''c''] (bbuf fr), stderr = [], slept = []\<rparr>"
    unfolding st0_def by (auto simp only: loop_state.simps first_step_A first_step_B append_Nil)
  have "iteration [''a'', ''b'', ''c''] (Finite 1) Read_Nothing st0 =
        Inr \<lparr>angle_A = 5368709 / 134217728, angle_B = 5368709 / 268435456, quit = False,
             stdout = emit_frame [''a'', ''b'', ''c''] (bbuf fr), stderr = [],
             slept = [33333]\<rparr>"
    by (simp add: iteration_def draw_frame_def adv pace_def usleep_arg_one)
  with fr have a: "\<exists>fr. render 0 0 = Inr fr \<and>
      iteration [''a'', ''b'', ''c''] (Finite 1) Read_Nothing
          \<lparr>angle_A = 0, angle_B = 0, quit = False, stdout = [], stderr = [], slept = []\<rparr> =
        Inr \<lparr>angle_A = 5368709 / 134217728, angle_B = 5368709 / 268435456, quit = False,
             stdout = emit_frame [''a'', ''b'', ''c''] (bbuf fr), stderr = [],
             slept = [33333]\<rparr>"
    unfolding st0_def by blast
  have b: "(5368709 / 134217728 :: real) \<noteq> 0 + 0.04" by simp
  have c: "(5368709 / 268435456 :: real) \<noteq> 0 + 0.02" by simp
  from a b c stall_A stall_B show ?thesis by (intro conjI)
qed

subsection \<open>The palette\<close>

lemma decimal_values:
  "decimal 0 = ''0''" "decimal 100 = ''100''" "decimal 180 = ''180''" "decimal 255 = ''255''"
  by (simp_all add: decimal.simps)

lemma fg_values:
  "fg 100 0 0 = CHR 0x1B # ''[38;2;100;0;0m''"
  "fg 180 0 0 = CHR 0x1B # ''[38;2;180;0;0m''"
  "fg 255 100 100 = CHR 0x1B # ''[38;2;255;100;100m''"
  "fg 0 0 100 = CHR 0x1B # ''[38;2;0;0;100m''"
  "fg 0 0 180 = CHR 0x1B # ''[38;2;0;0;180m''"
  "fg 100 100 255 = CHR 0x1B # ''[38;2;100;100;255m''"
  "fg 0 100 100 = CHR 0x1B # ''[38;2;0;100;100m''"
  "fg 0 180 180 = CHR 0x1B # ''[38;2;0;180;180m''"
  "fg 100 255 255 = CHR 0x1B # ''[38;2;100;255;255m''"
  "fg 100 0 100 = CHR 0x1B # ''[38;2;100;0;100m''"
  "fg 180 0 180 = CHR 0x1B # ''[38;2;180;0;180m''"
  "fg 255 100 255 = CHR 0x1B # ''[38;2;255;100;255m''"
  "fg 100 100 0 = CHR 0x1B # ''[38;2;100;100;0m''"
  "fg 180 180 0 = CHR 0x1B # ''[38;2;180;180;0m''"
  "fg 255 255 100 = CHR 0x1B # ''[38;2;255;255;100m''"
  "fg 100 100 100 = CHR 0x1B # ''[38;2;100;100;100m''"
  "fg 180 180 180 = CHR 0x1B # ''[38;2;180;180;180m''"
  "fg 255 255 255 = CHR 0x1B # ''[38;2;255;255;255m''"
  "fg 0 100 0 = CHR 0x1B # ''[38;2;0;100;0m''"
  "fg 0 180 0 = CHR 0x1B # ''[38;2;0;180;0m''"
  "fg 100 255 100 = CHR 0x1B # ''[38;2;100;255;100m''"
  by (simp_all add: fg_def decimal_values)

lemma palette_table:
  "setColorPalette ''red'' = ([fg 100 0 0, fg 180 0 0, fg 255 100 100], [])"
  "setColorPalette ''rot'' = ([fg 100 0 0, fg 180 0 0, fg 255 100 100], [])"
  "setColorPalette ''blue'' = ([fg 0 0 100, fg 0 0 180, fg 100 100 255], [])"
  "setColorPalette ''blau'' = ([fg 0 0 100, fg 0 0 180, fg 100 100 255], [])"
  "setColorPalette ''cyan'' = ([fg 0 100 100, fg 0 180 180, fg 100 255 255], [])"
  "setColorPalette ''magenta'' = ([fg 100 0 100, fg 180 0 180, fg 255 100 255], [])"
  "setColorPalette ''yellow'' = ([fg 100 100 0, fg 180 180 0, fg 255 255 100], [])"
  "setColorPalette ''gelb'' = ([fg 100 100 0, fg 180 180 0, fg 255 255 100], [])"
  "setColorPalette ''white'' = ([fg 100 100 100, fg 180 180 180, fg 255 255 255], [])"
  "setColorPalette ''weiss'' = ([fg 100 100 100, fg 180 180 180, fg 255 255 255], [])"
  "setColorPalette ''green'' = ([fg 0 100 0, fg 0 180 0, fg 100 255 100], [])"
  "setColorPalette ''gruen'' = ([fg 0 100 0, fg 0 180 0, fg 100 255 100], [])"
  by (simp_all add: setColorPalette_def fg_values)



lemma main_one_colour:
  assumes "tcgetattr_ok tty" "tcsetattr_ok tty" "name \<noteq> ''-h''" "name \<noteq> ''--help''"
  shows "main strtof tty [prog, name] reads =
    (case main_loop (fst (setColorPalette name)) (Finite 1) reads
            \<lparr>angle_A = 0, angle_B = 0, quit = False,
             stdout = CHR 0x1B # ''[?25l'' @ CHR 0x1B # ''[2J'',
             stderr = snd (setColorPalette name), slept = []\<rparr> of
       None \<Rightarrow> None
     | Some (Inl e) \<Rightarrow> Some (Inl e)
     | Some (Inr st) \<Rightarrow>
         Some (Inr \<lparr>status = 0, written = stdout st @ CHR 0x1B # ''[?25h'',
                    diagnostics = stderr st\<rparr>))"
  using assms by (simp add: main_def Let_def split_def)




lemma main_loop_stopped:
  "quit st \<Longrightarrow> main_loop colorPalette speedFactor rs st = Some (Inr st)"
  by (cases rs) simp_all

lemma main_quits_at_once:
  assumes "tcgetattr_ok tty" "tcsetattr_ok tty" "name \<noteq> ''-h''" "name \<noteq> ''--help''"
  shows "main strtof tty [prog, name] (Read_Byte (CHR ''q'') # reads) =
    Some (Inr \<lparr>status = 0,
               written = CHR 0x1B # ''[?25l'' @ CHR 0x1B # ''[2J'' @ CHR 0x1B # ''[?25h'',
               diagnostics = snd (setColorPalette name)\<rparr>)"
proof -
  define st0 where "st0 = \<lparr>angle_A = 0, angle_B = 0, quit = False,
        stdout = CHR 0x1B # ''[?25l'' @ CHR 0x1B # ''[2J'',
        stderr = snd (setColorPalette name), slept = []\<rparr>"
  have "main_loop (fst (setColorPalette name)) (Finite 1) (Read_Byte (CHR ''q'') # reads) st0 =
      Some (Inr (st0\<lparr>quit := True\<rparr>))"
    by (simp add: iteration_def st0_def main_loop_stopped)
  then show ?thesis
    unfolding main_one_colour [OF assms] st0_def by simp
qed

subsection \<open>The exit status\<close>

lemma help_exits_zero:
  assumes "1 < length argv" and "argv ! 1 = ''-h'' \<or> argv ! 1 = ''--help''"
  shows "main strtof tty argv reads =
    Some (Inr \<lparr>status = 0, written = usage (argv ! 0), diagnostics = []\<rparr>)"
  using assms by (simp add: main_def Let_def)


lemma terminal_failure_exits_one:
  assumes "\<not> tcgetattr_ok tty \<or> \<not> tcsetattr_ok tty"
    and "length argv \<le> 1 \<or> (argv ! 1 \<noteq> ''-h'' \<and> argv ! 1 \<noteq> ''--help'')"
  shows "\<exists>f. main strtof tty argv reads = Some (Inr f) \<and> status f = 1"
  using assms by (auto simp: main_def Let_def split_def)

text \<open>
  C3. A quit key and \<^verbatim>\<open>--help\<close> end the process with status 0 (\<open>main_quits_at_once\<close>,
  \<open>help_exits_zero\<close>). A failing \<^verbatim>\<open>read\<close> does too: with \<^verbatim>\<open>errno\<close> 5 (\<^verbatim>\<open>EIO\<close>) on the
  first call the loop ends through \<^verbatim>\<open>quit\<close> and \<^verbatim>\<open>main\<close> returns 0, after
  \<^verbatim>\<open>perror\<close>. The status is not the non-zero one that the failures in
  \<^verbatim>\<open>enableRawMode\<close> give (\<open>terminal_failure_exits_one\<close>).
\<close>

theorem read_failure_exits_with_status_zero:
  "main (\<lambda>s. (Finite 1, [])) \<lparr>tcgetattr_ok = True, tcsetattr_ok = True\<rparr> [''donut'']
       [Read_Error 5] =
     Some (Inr \<lparr>status = 0,
                written = CHR 0x1B # ''[?25l'' @ CHR 0x1B # ''[2J'' @ CHR 0x1B # ''[?25h'',
                diagnostics = ''read stdin failed''\<rparr>) \<and>
   5 \<noteq> EAGAIN \<and> 5 \<noteq> EWOULDBLOCK"
  by (simp add: main_def Let_def iteration_def EAGAIN_def EWOULDBLOCK_def palette_table)

subsection \<open>Names that are not recognized\<close>





subsection \<open>A speed factor that is not a number\<close>

lemma main_colour_and_speed:
  assumes "tcgetattr_ok tty" "tcsetattr_ok tty" "name \<noteq> ''-h''" "name \<noteq> ''--help''"
  shows "main strtof tty [prog, name, arg] reads =
    (case main_loop (fst (setColorPalette name)) (fst (read_speed strtof arg)) reads
            \<lparr>angle_A = 0, angle_B = 0, quit = False,
             stdout = CHR 0x1B # ''[?25l'' @ CHR 0x1B # ''[2J'',
             stderr = snd (read_speed strtof arg) @ snd (setColorPalette name), slept = []\<rparr> of
       None \<Rightarrow> None
     | Some (Inl e) \<Rightarrow> Some (Inl e)
     | Some (Inr st) \<Rightarrow>
         Some (Inr \<lparr>status = 0, written = stdout st @ CHR 0x1B # ''[?25h'',
                    diagnostics = stderr st\<rparr>))"
  using assms by (simp add: main_def Let_def split_def)

text \<open>
  C10. When \<^verbatim>\<open>strtof\<close> consumes the whole second argument and returns a NaN, the check
  \<^verbatim>\<open>*endptr != 0 || speedFactor <= 0\<close> does not trigger: \<open>read_speed\<close> returns the NaN and
  writes no warning, the loop runs with the NaN as its speed factor (\<^verbatim>\<open>stderr\<close> holds
  the palette's text only), and the first frame that is drawn reaches
  \<^verbatim>\<open>baseSleep / speedFactor\<close> with it: the quotient is a NaN, whose cast to
  \<^verbatim>\<open>useconds_t\<close> C leaves undefined.
\<close>

theorem nan_speed_passes_validation:
  "strtof arg = (NaN, []) \<longrightarrow>
     \<not> le_zero NaN \<and> read_speed strtof arg = (NaN, []) \<and>
     sleep_quotient NaN = NaN \<and> usleep_arg NaN = None \<and>
     (tcgetattr_ok tty \<and> tcsetattr_ok tty \<and> name \<noteq> ''-h'' \<and> name \<noteq> ''--help'' \<longrightarrow>
        main strtof tty [prog, name, arg] reads =
          (case main_loop (fst (setColorPalette name)) NaN reads
                  \<lparr>angle_A = 0, angle_B = 0, quit = False,
                   stdout = CHR 0x1B # ''[?25l'' @ CHR 0x1B # ''[2J'',
                   stderr = snd (setColorPalette name), slept = []\<rparr> of
             None \<Rightarrow> None
           | Some (Inl e) \<Rightarrow> Some (Inl e)
           | Some (Inr st) \<Rightarrow>
               Some (Inr \<lparr>status = 0, written = stdout st @ CHR 0x1B # ''[?25h'',
                          diagnostics = stderr st\<rparr>)) \<and>
        (\<not> ends_loop r \<longrightarrow>
           main strtof tty [prog, name, arg] (r # reads) = Some (Inl Undefined_Conversion)))"
proof (intro impI)
  assume s: "strtof arg = (NaN, [])"
  have a: "\<not> le_zero NaN" by (simp add: le_zero_def)
  have b: "read_speed strtof arg = (NaN, [])" by (simp add: read_speed_def s le_zero_def)
  have c: "sleep_quotient NaN = NaN" by (simp add: sleep_quotient_def)
  have d: "usleep_arg NaN = None"
    by (simp add: usleep_arg_def sleep_quotient_def to_useconds_def)
  have e: "main strtof tty [prog, name, arg] reads =
          (case main_loop (fst (setColorPalette name)) NaN reads
                  \<lparr>angle_A = 0, angle_B = 0, quit = False,
                   stdout = CHR 0x1B # ''[?25l'' @ CHR 0x1B # ''[2J'',
                   stderr = snd (setColorPalette name), slept = []\<rparr> of
             None \<Rightarrow> None
           | Some (Inl e) \<Rightarrow> Some (Inl e)
           | Some (Inr st) \<Rightarrow>
               Some (Inr \<lparr>status = 0, written = stdout st @ CHR 0x1B # ''[?25h'',
                          diagnostics = stderr st\<rparr>)) \<and>
        (\<not> ends_loop r \<longrightarrow>
           main strtof tty [prog, name, arg] (r # reads) = Some (Inl Undefined_Conversion))"
    if t: "tcgetattr_ok tty \<and> tcsetattr_ok tty \<and> name \<noteq> ''-h'' \<and> name \<noteq> ''--help''"
  proof -
    from t have t': "tcgetattr_ok tty" "tcsetattr_ok tty" "name \<noteq> ''-h''" "name \<noteq> ''--help''"
      by simp_all
    note m = main_colour_and_speed [OF t', of strtof prog arg]
    have first: "main strtof tty [prog, name, arg] reads =
          (case main_loop (fst (setColorPalette name)) NaN reads
                  \<lparr>angle_A = 0, angle_B = 0, quit = False,
                   stdout = CHR 0x1B # ''[?25l'' @ CHR 0x1B # ''[2J'',
                   stderr = snd (setColorPalette name), slept = []\<rparr> of
             None \<Rightarrow> None
           | Some (Inl e) \<Rightarrow> Some (Inl e)
           | Some (Inr st) \<Rightarrow>
               Some (Inr \<lparr>status = 0, written = stdout st @ CHR 0x1B # ''[?25h'',
                          diagnostics = stderr st\<rparr>))"
      unfolding m b by simp
    have second: "main strtof tty [prog, name, arg] (r # reads) = Some (Inl Undefined_Conversion)"
      if r: "\<not> ends_loop r"
      unfolding m b by (simp add: nan_frame_stops [OF r])
    from first second show ?thesis by blast
  qed
  from a b c d e show "\<not> le_zero NaN \<and> read_speed strtof arg = (NaN, []) \<and>
     sleep_quotient NaN = NaN \<and> usleep_arg NaN = None \<and>
     (tcgetattr_ok tty \<and> tcsetattr_ok tty \<and> name \<noteq> ''-h'' \<and> name \<noteq> ''--help'' \<longrightarrow>
        main strtof tty [prog, name, arg] reads =
          (case main_loop (fst (setColorPalette name)) NaN reads
                  \<lparr>angle_A = 0, angle_B = 0, quit = False,
                   stdout = CHR 0x1B # ''[?25l'' @ CHR 0x1B # ''[2J'',
                   stderr = snd (setColorPalette name), slept = []\<rparr> of
             None \<Rightarrow> None
           | Some (Inl e) \<Rightarrow> Some (Inl e)
           | Some (Inr st) \<Rightarrow>
               Some (Inr \<lparr>status = 0, written = stdout st @ CHR 0x1B # ''[?25h'',
                          diagnostics = stderr st\<rparr>)) \<and>
        (\<not> ends_loop r \<longrightarrow>
           main strtof tty [prog, name, arg] (r # reads) = Some (Inl Undefined_Conversion)))"
    by (intro conjI impI) simp_all
qed

theorem nan_speed_passes_validation_witness:
  "(\<lambda>s. if s = ''nan'' then (NaN, []) else (Finite 1, [])) ''nan'' = (NaN, [] :: string) \<and>
   read_speed (\<lambda>s. if s = ''nan'' then (NaN, []) else (Finite 1, [])) ''nan'' = (NaN, []) \<and> usleep_arg NaN = None \<and>
   \<not> ends_loop Read_Nothing \<and>
   main (\<lambda>s. if s = ''nan'' then (NaN, []) else (Finite 1, [])) \<lparr>tcgetattr_ok = True, tcsetattr_ok = True\<rparr>
       [''donut'', ''red'', ''nan''] [Read_Nothing] = Some (Inl Undefined_Conversion) \<and>
   main (\<lambda>s. if s = ''nan'' then (NaN, []) else (Finite 1, [])) \<lparr>tcgetattr_ok = True, tcsetattr_ok = True\<rparr>
       [''donut'', ''red'', ''nan''] [Read_Byte (CHR ''q'')] =
     Some (Inr \<lparr>status = 0,
                written = CHR 0x1B # ''[?25l'' @ CHR 0x1B # ''[2J'' @ CHR 0x1B # ''[?25h'',
                diagnostics = []\<rparr>)"
proof -
  have s: "(\<lambda>s. if s = ''nan'' then (NaN, []) else (Finite 1, [])) ''nan'' = (NaN, [] :: string)"
    by simp
  have r: "\<not> ends_loop Read_Nothing" by (simp add: ends_loop_def)
  note t = nan_speed_passes_validation
      [of "\<lambda>s. if s = ''nan'' then (NaN, []) else (Finite 1, [])" "''nan''"
      "\<lparr>tcgetattr_ok = True, tcsetattr_ok = True\<rparr>" "''red''" "''donut''" _ Read_Nothing,
      rule_format, OF s]
  have a: "read_speed (\<lambda>s. if s = ''nan'' then (NaN, []) else (Finite 1, [])) ''nan'' = (NaN, [])"
    using t [of "[]"] by blast
  have b: "usleep_arg NaN = None"
    using t [of "[]"] by blast
  have c: "main (\<lambda>s. if s = ''nan'' then (NaN, []) else (Finite 1, [])) \<lparr>tcgetattr_ok = True, tcsetattr_ok = True\<rparr>
       [''donut'', ''red'', ''nan''] [Read_Nothing] = Some (Inl Undefined_Conversion)"
    using t [of "[]"] r by simp
  have "main (\<lambda>s. if s = ''nan'' then (NaN, []) else (Finite 1, [])) \<lparr>tcgetattr_ok = True, tcsetattr_ok = True\<rparr>
       [''donut'', ''red'', ''nan''] [Read_Byte (CHR ''q'')] =
      (case main_loop (fst (setColorPalette ''red'')) NaN [Read_Byte (CHR ''q'')]
                  \<lparr>angle_A = 0, angle_B = 0, quit = False,
                   stdout = CHR 0x1B # ''[?25l'' @ CHR 0x1B # ''[2J'',
                   stderr = snd (setColorPalette ''red''), slept = []\<rparr> of
             None \<Rightarrow> None
           | Some (Inl e) \<Rightarrow> Some (Inl e)
           | Some (Inr st) \<Rightarrow>
               Some (Inr \<lparr>status = 0, written = stdout st @ CHR 0x1B # ''[?25h'',
                          diagnostics = stderr st\<rparr>))"
    using t [of "[Read_Byte (CHR ''q'')]"] by simp
  then have d: "main (\<lambda>s. if s = ''nan'' then (NaN, []) else (Finite 1, [])) \<lparr>tcgetattr_ok = True, tcsetattr_ok = True\<rparr>
       [''donut'', ''red'', ''nan''] [Read_Byte (CHR ''q'')] =
     Some (Inr \<lparr>status = 0,
                written = CHR 0x1B # ''[?25l'' @ CHR 0x1B # ''[2J'' @ CHR 0x1B # ''[?25h'',
                diagnostics = []\<rparr>)"
    by (simp add: iteration_def palette_table)
  from a b r c d show ?thesis by simp
qed

subsection \<open>Emitting a frame\<close>

lemma emit_loop_positions:
  "emit_loop colorPalette b k = concat (map (emit_at colorPalette b) [k..<1761])"
proof (induction colorPalette b k rule: emit_loop.induct)
  case (1 colorPalette b k)
  show ?case
  proof (cases "1761 > k")
    case True
    then have "[k..<1761] = k # [k + 1..<1761]" by (simp add: upt_conv_Cons)
    with True "1.IH" show ?thesis by (subst emit_loop.simps) simp
  next
    case False
    then show ?thesis by (subst emit_loop.simps) simp
  qed
qed

lemma line_break_positions: "{k. k < 1761 \<and> k mod 80 = 0} = (\<lambda>q. 80 * q) ` {..<23::nat}"
proof (intro set_eqI iffI)
  fix k :: nat
  assume "k \<in> {k. k < 1761 \<and> k mod 80 = 0}"
  then have "k = 80 * (k div 80)" "k div 80 < 23" by auto
  then show "k \<in> (\<lambda>q. 80 * q) ` {..<23::nat}" by blast
next
  fix k :: nat
  assume "k \<in> (\<lambda>q. 80 * q) ` {..<23::nat}"
  then show "k \<in> {k. k < 1761 \<and> k mod 80 = 0}" by auto
qed

lemma card_line_breaks: "card {k::nat. k < 1761 \<and> k mod 80 = 0} = 23"
  unfolding line_break_positions by (subst card_image) (simp_all add: inj_on_def)

lemma card_glyph_positions: "card {k::nat. k < 1761 \<and> k mod 80 \<noteq> 0} = 1738"
proof -
  have "{k::nat. k < 1761 \<and> k mod 80 \<noteq> 0} = {..<1761} - {k. k < 1761 \<and> k mod 80 = 0}"
    by auto
  moreover have "{k::nat. k < 1761 \<and> k mod 80 = 0} \<subseteq> {..<1761}"
    by auto
  ultimately have "card {k::nat. k < 1761 \<and> k mod 80 \<noteq> 0} =
      card {..<1761::nat} - card {k::nat. k < 1761 \<and> k mod 80 = 0}"
    by (simp add: card_Diff_subset)
  then show ?thesis by (simp add: card_line_breaks)
qed

text \<open>
  C7, as the code has it. The output loop visits the 1761 positions \<open>0, \<dots>, 1760\<close>. At
  each of the 23 positions that are multiples of 80 (the first and the last among them)
  it writes a line break and nothing else, so the cell there is not shown. At each of the
  other 1738 positions it writes the colour prefix of the cell's glyph, the glyph, and the
  reset sequence. The prefix is the first palette entry for \<open>.,-\<close>, the second for
  \<open>~:;=\<close>, the third for \<open>!*#$@\<close>, and empty for the blank (which is still followed by the
  reset sequence).
\<close>

theorem frame_emission:
  "emit_frame colorPalette b =
     CHR 0x1B # ''[H'' @ concat (map (emit_at colorPalette b) [0..<1761]) \<and>
   (\<forall>k<1761. k mod 80 = 0 \<longrightarrow> emit_at colorPalette b k = [CHR 0x0A]) \<and>
   (\<forall>k<1761. k mod 80 \<noteq> 0 \<longrightarrow>
      k < 1760 \<and>
      emit_at colorPalette b k = color_code colorPalette (b ! k) @ [b ! k] @ CHR 0x1B # ''[0m'') \<and>
   card {k::nat. k < 1761 \<and> k mod 80 = 0} = 23 \<and>
   card {k::nat. k < 1761 \<and> k mod 80 \<noteq> 0} = 1738 \<and>
   (\<forall>ch\<in>set ''.,-''. color_code colorPalette ch = colorPalette ! 0) \<and>
   (\<forall>ch\<in>set ''~:;=''. color_code colorPalette ch = colorPalette ! 1) \<and>
   (\<forall>ch\<in>set ''!*#$@''. color_code colorPalette ch = colorPalette ! 2) \<and>
   color_code colorPalette (CHR 0x20) = []"
proof -
  have a: "emit_frame colorPalette b =
     CHR 0x1B # ''[H'' @ concat (map (emit_at colorPalette b) [0..<1761])"
    by (simp add: emit_frame_def emit_loop_positions)
  have b: "\<forall>k<1761. k mod 80 = 0 \<longrightarrow> emit_at colorPalette b k = [CHR 0x0A]"
    by (simp add: emit_at_def)
  have c: "\<forall>k<1761. k mod 80 \<noteq> 0 \<longrightarrow>
      k < 1760 \<and>
      emit_at colorPalette b k = color_code colorPalette (b ! k) @ [b ! k] @ CHR 0x1B # ''[0m''"
  proof (intro allI impI)
    fix k :: nat
    assume "k < 1761" "k mod 80 \<noteq> 0"
    then have "k \<noteq> 1760" by auto
    with \<open>k < 1761\<close> have k: "k < 1760" by simp
    with \<open>k mod 80 \<noteq> 0\<close> show "k < 1760 \<and>
      emit_at colorPalette b k = color_code colorPalette (b ! k) @ [b ! k] @ CHR 0x1B # ''[0m''"
      by (simp add: emit_at_def Let_def)
  qed
  have d: "\<forall>ch\<in>set ''.,-''. color_code colorPalette ch = colorPalette ! 0"
    by (simp add: color_code_def strchr_def)
  have e: "\<forall>ch\<in>set ''~:;=''. color_code colorPalette ch = colorPalette ! 1"
    by (simp add: color_code_def strchr_def)
  have f: "\<forall>ch\<in>set ''!*#$@''. color_code colorPalette ch = colorPalette ! 2"
    by (simp add: color_code_def strchr_def)
  have g: "color_code colorPalette (CHR 0x20) = []"
    by (simp add: color_code_def strchr_def)
  from a b c card_line_breaks card_glyph_positions d e f g show ?thesis by blast
qed

theorem frame_emission_witness:
  "(80::nat) < 1761 \<and> (80::nat) mod 80 = 0 \<and> emit_at [''a'', ''b'', ''c''] (bbuf clear_frame) 80 = [CHR 0x0A] \<and>
   (81::nat) < 1761 \<and> (81::nat) mod 80 \<noteq> 0 \<and>
   emit_at [''a'', ''b'', ''c''] ((bbuf clear_frame)[81 := CHR ''@'']) 81 =
     ''c'' @ ''@'' @ CHR 0x1B # ''[0m'' \<and>
   CHR ''@'' \<in> set ''!*#$@'' \<and> color_code [''a'', ''b'', ''c''] (CHR ''@'') = ''c'' \<and>
   CHR '','' \<in> set ''.,-'' \<and> color_code [''a'', ''b'', ''c''] (CHR '','') = ''a'' \<and>
   CHR '':'' \<in> set ''~:;='' \<and> color_code [''a'', ''b'', ''c''] (CHR '':'') = ''b''"
proof -
  note t = frame_emission [of "[''a'', ''b'', ''c'']" "bbuf clear_frame"]
  note u = frame_emission [of "[''a'', ''b'', ''c'']" "(bbuf clear_frame)[81 := CHR ''@'']"]
  note breaks = t [THEN conjunct2, THEN conjunct1, rule_format, of 80]
  note cells = u [THEN conjunct2, THEN conjunct2, THEN conjunct1, rule_format, of 81]
  note colours = t [THEN conjunct2, THEN conjunct2, THEN conjunct2, THEN conjunct2,
      THEN conjunct2]
  have a: "emit_at [''a'', ''b'', ''c''] (bbuf clear_frame) 80 = [CHR 0x0A]"
    by (rule breaks) simp_all
  have "emit_at [''a'', ''b'', ''c''] ((bbuf clear_frame)[81 := CHR ''@'']) 81 =
        color_code [''a'', ''b'', ''c''] ((bbuf clear_frame)[81 := CHR ''@''] ! 81) @
        [(bbuf clear_frame)[81 := CHR ''@''] ! 81] @ CHR 0x1B # ''[0m''"
    using cells by simp
  moreover have cell: "(bbuf clear_frame)[81 := CHR ''@''] ! 81 = CHR ''@''"
    by (simp add: clear_frame_def)
  moreover from colours have hi: "color_code [''a'', ''b'', ''c''] (CHR ''@'') = ''c''"
    by simp
  ultimately have b: "emit_at [''a'', ''b'', ''c''] ((bbuf clear_frame)[81 := CHR ''@'']) 81 =
     ''c'' @ ''@'' @ CHR 0x1B # ''[0m''"
    by simp
  from colours have lo: "color_code [''a'', ''b'', ''c''] (CHR '','') = ''a''"
    by simp
  from colours have mid: "color_code [''a'', ''b'', ''c''] (CHR '':'') = ''b''"
    by simp
  from a b hi lo mid show ?thesis by simp
qed

text \<open>
  Position 80 holds a cell, blank or not, and the loop writes only the line break there;
  at position 81 the blank is written with the reset sequence.
\<close>

theorem frame_emission_counterexample:
  "bbuf clear_frame ! 80 = CHR 0x20 \<and>
   emit_at (fst (setColorPalette ''green'')) (bbuf clear_frame) 80 = [CHR 0x0A] \<and>
   emit_at (fst (setColorPalette ''green'')) ((bbuf clear_frame)[80 := CHR ''@'']) 80 = [CHR 0x0A] \<and>
   emit_at (fst (setColorPalette ''green'')) (bbuf clear_frame) 81 = CHR 0x20 # CHR 0x1B # ''[0m''"
  by (simp add: clear_frame_def emit_at_def color_code_def strchr_def)

end
